theory Spec2Isabelle
  imports Complex_Main "HOL-Library.Word"
begin

section \<open>Numbers and array reads\<close>

text \<open>
  The program is TypeScript; every number is an IEEE double. The embedding takes the
  finite numbers to be the reals (rounding, overflow to an infinity and signed zeros
  are not represented). NaN is represented where the code can produce it from an
  array read outside the bounds: such a read returns \<open>undefined\<close>, arithmetic on
  \<open>undefined\<close> gives NaN, every comparison with NaN is false, and NaN absorbs
  sums and products. A value that may be NaN has type \<open>real option\<close>, with
  \<open>None\<close> for NaN.
\<close>

type_synonym jsnum = "real option"

text \<open>\<open>xs[i]\<close> for an integer \<open>i\<close>: \<open>undefined\<close> outside \<open>0 .. length - 1\<close>.\<close>

definition js_read :: "'a list \<Rightarrow> int \<Rightarrow> 'a option" where
  "js_read xs i = (if 0 \<le> i \<and> i < int (length xs) then Some (xs ! nat i) else None)"

text \<open>
  The remainder operator \<open>a % b\<close> on integers: the result has the sign of the
  dividend (for \<open>b = 0\<close> the program would get NaN; no caller below reaches that).
\<close>

definition js_rem :: "int \<Rightarrow> int \<Rightarrow> int" where
  "js_rem a b = sgn a * (\<bar>a\<bar> mod \<bar>b\<bar>)"

definition js_add :: "jsnum \<Rightarrow> jsnum \<Rightarrow> jsnum" where
  "js_add x y = (case (x, y) of (Some a, Some b) \<Rightarrow> Some (a + b) | _ \<Rightarrow> None)"

definition js_mul :: "jsnum \<Rightarrow> jsnum \<Rightarrow> jsnum" where
  "js_mul x y = (case (x, y) of (Some a, Some b) \<Rightarrow> Some (a * b) | _ \<Rightarrow> None)"

text \<open>\<open>Math.max(...xs)\<close> of a non-empty array of finite numbers.\<close>

fun list_max :: "real list \<Rightarrow> real" where
  "list_max [] = 0"
| "list_max (x # xs) = fold max xs x"

section \<open>gaussian.ts\<close>

text \<open>
  \<open>generateGaussianKernel\<close>: radius \<open>ceil(3 sigma)\<close>, weights
  \<open>exp(-(x*x) / (2 sigma sigma))\<close> for \<open>x = i - radius\<close>, \<open>i = 0 .. size - 1\<close>,
  each divided by their sum.
\<close>

definition kernelRadius :: "real \<Rightarrow> int" where
  "kernelRadius sigma = \<lceil>sigma * 3\<rceil>"

definition rawKernel :: "real \<Rightarrow> real list" where
  "rawKernel sigma =
     (let radius = kernelRadius sigma;
          size = radius * 2 + 1
      in map (\<lambda>i. exp (- (real_of_int ((i - radius) * (i - radius))) / (2 * sigma * sigma)))
             [0 .. size - 1])"

definition generateGaussianKernel :: "real \<Rightarrow> real list" where
  "generateGaussianKernel sigma =
     (let kern = rawKernel sigma;
          total = sum_list kern
      in map (\<lambda>v. v / total) kern)"

text \<open>
  The inner loop of \<open>gaussianSmoothHistogram\<close> for one output position \<open>i\<close>:
  \<open>sum += buckets[(i + k - radius + len) % len] * kernel[k]\<close> for \<open>k\<close> from 0 to
  \<open>kernel.length - 1\<close>.
\<close>

definition smoothTerm :: "real list \<Rightarrow> real list \<Rightarrow> int \<Rightarrow> nat \<Rightarrow> nat \<Rightarrow> jsnum" where
  "smoothTerm buckets kern radius i k =
     (let len = int (length buckets);
          idx = js_rem (int i + int k - radius + len) len
      in js_mul (js_read buckets idx) (Some (kern ! k)))"

definition smoothAt :: "real list \<Rightarrow> real list \<Rightarrow> int \<Rightarrow> nat \<Rightarrow> jsnum" where
  "smoothAt buckets kern radius i =
     fold (\<lambda>k acc. js_add acc (smoothTerm buckets kern radius i k))
          [0 ..< length kern] (Some 0)"

definition gaussianSmoothHistogram :: "real list \<Rightarrow> real \<Rightarrow> jsnum list" where
  "gaussianSmoothHistogram buckets sigma =
     (if sigma \<le> 0 then map Some buckets
      else
        let kern = generateGaussianKernel sigma;
            radius = int (length kern div 2);
            len = length buckets
        in map (smoothAt buckets kern radius) [0 ..< len])"

section \<open>peaks.ts\<close>

record Peak =
  index :: nat
  peak_value :: real
  left :: nat
  right :: nat

record DetectPeaksOptions =
  minHeight :: "real option"

text \<open>
  The threshold \<open>max * minHeight\<close> is the one place where \<open>detectPeaks\<close> computes:
  everything else compares buckets. Its product is therefore taken as the program
  computes it, rounded to the nearest double, ties to the even significand:
  \<open>roundDouble\<close> (53 significant bits, least exponent -1022). A result of magnitude
  \<open>2^1024\<close> or more stands for the infinity of its sign, which \<open>geThreshold\<close>, the
  comparison \<open>curr >= threshold\<close>, places above (below) every bucket.
\<close>

definition roundEven :: "real \<Rightarrow> int" where
  "roundEven y =
     (let f = \<lfloor>y\<rfloor>
      in if y - of_int f < 1 / 2 then f
         else if y - of_int f > 1 / 2 then f + 1
         else if even f then f else f + 1)"

definition roundDouble :: "real \<Rightarrow> real" where
  "roundDouble x =
     (if x = 0 then 0
      else let e = max \<lfloor>log 2 \<bar>x\<bar>\<rfloor> (- 1022);
               u = 2 powr (of_int e - 52)
           in u * of_int (roundEven (x / u)))"

definition geThreshold :: "real \<Rightarrow> real \<Rightarrow> bool" where
  "geThreshold v t = (if \<bar>t\<bar> \<ge> 2 ^ 1024 then t < 0 else v \<ge> t)"

text \<open>
  \<open>const { minHeight = 0.1 } = options\<close>; the literal \<open>0.1\<close> is the double nearest
  to one tenth.
\<close>

definition minHeightOf :: "DetectPeaksOptions \<Rightarrow> real" where
  "minHeightOf options = (case minHeight options of None \<Rightarrow> roundDouble 0.1 | Some m \<Rightarrow> m)"

text \<open>The test of the first loop of \<open>detectPeaks\<close> at position \<open>i\<close>.\<close>

definition isLocalMax :: "real list \<Rightarrow> real \<Rightarrow> nat \<Rightarrow> bool" where
  "isLocalMax buckets threshold i =
     (let len = length buckets;
          prev = buckets ! ((i + len - 1) mod len);
          curr = buckets ! i;
          next = buckets ! ((i + 1) mod len)
      in curr > prev \<and> curr > next \<and> geThreshold curr threshold)"

text \<open>
  The two boundary loops, \<open>for (let i = 1; i < len / 2; i++)\<close>. The arguments are the
  loop counter \<open>i\<close> and the current value of the variable \<open>left\<close> (\<open>right\<close>); a
  \<open>break\<close> returns at once.
\<close>

function scanLeft :: "real list \<Rightarrow> nat \<Rightarrow> nat \<Rightarrow> nat \<Rightarrow> nat" where
  "scanLeft buckets pidx i l =
     (if 2 * i < length buckets then
        (if buckets ! ((pidx + length buckets - i) mod length buckets)
              \<ge> buckets ! ((((pidx + length buckets - i) mod length buckets) + 1) mod length buckets)
         then (((pidx + length buckets - i) mod length buckets) + 1) mod length buckets
         else scanLeft buckets pidx (i + 1) ((pidx + length buckets - i) mod length buckets))
      else l)"
  by pat_completeness auto
termination
  by (relation "measure (\<lambda>(buckets, pidx, i, l). length buckets - 2 * i)") auto

function scanRight :: "real list \<Rightarrow> nat \<Rightarrow> nat \<Rightarrow> nat \<Rightarrow> nat" where
  "scanRight buckets pidx i r =
     (if 2 * i < length buckets then
        (if buckets ! ((pidx + i) mod length buckets)
              \<ge> buckets ! ((((pidx + i) mod length buckets) + length buckets - 1) mod length buckets)
         then (((pidx + i) mod length buckets) + length buckets - 1) mod length buckets
         else scanRight buckets pidx (i + 1) ((pidx + i) mod length buckets))
      else r)"
  by pat_completeness auto
termination
  by (relation "measure (\<lambda>(buckets, pidx, i, r). length buckets - 2 * i)") auto

definition candidatePeaks :: "real list \<Rightarrow> real \<Rightarrow> Peak list" where
  "candidatePeaks buckets threshold =
     map (\<lambda>i. \<lparr>index = i, peak_value = buckets ! i, left = i, right = i\<rparr>)
         (filter (isLocalMax buckets threshold) [0 ..< length buckets])"

definition withBoundaries :: "real list \<Rightarrow> Peak \<Rightarrow> Peak" where
  "withBoundaries buckets peak =
     peak\<lparr>left := scanLeft buckets (index peak) 1 (index peak),
          right := scanRight buckets (index peak) 1 (index peak)\<rparr>"

text \<open>
  \<open>detectPeaks\<close>. For an empty array the program computes \<open>Math.max() = -Infinity\<close>,
  runs no loop iteration and returns the empty array. \<open>Array.prototype.sort\<close> is
  stable, as \<open>sort_key\<close> is; the comparator \<open>b.value - a.value\<close> orders by
  descending value.
\<close>

definition detectPeaks :: "real list \<Rightarrow> DetectPeaksOptions \<Rightarrow> Peak list" where
  "detectPeaks buckets options =
     (if buckets = [] then []
      else
        let threshold = roundDouble (list_max buckets * minHeightOf options);
            peaks = candidatePeaks buckets threshold
        in sort_key (\<lambda>p. - peak_value p) (map (withBoundaries buckets) peaks))"


text \<open>
  The bucket at a position of the ring given as an integer, reduced modulo the length:
  the notation of the statements below for \<open>buckets[(i - 1) mod 360]\<close>.
\<close>

definition bucketAt :: "real list \<Rightarrow> int \<Rightarrow> real" where
  "bucketAt buckets k = buckets ! nat (k mod int (length buckets))"

section \<open>oklch.ts\<close>

text \<open>
  \<open>Math.atan2(y, x)\<close> on the reals: the angle of the point \<open>(x, y)\<close> in
  \<open>(-pi, pi]\<close>, and 0 at the origin.
\<close>

definition atan2 :: "real \<Rightarrow> real \<Rightarrow> real" where
  "atan2 y x =
     (if x > 0 then arctan (y / x)
      else if x < 0 then (if y \<ge> 0 then arctan (y / x) + pi else arctan (y / x) - pi)
      else if y > 0 then pi / 2
      else if y < 0 then - pi / 2
      else 0)"

text \<open>
  \<open>Math.pow\<close> with a fractional exponent is applied to positive bases only and is
  \<open>powr\<close>; \<open>Math.cbrt\<close> is the odd root \<open>root 3\<close>.
\<close>

definition srgbToLinear :: "real \<Rightarrow> real" where
  "srgbToLinear c = (if c \<le> 0.04045 then c / 12.92 else ((c + 0.055) / 1.055) powr 2.4)"

definition rgbToOklch :: "real \<Rightarrow> real \<Rightarrow> real \<Rightarrow> real \<times> real \<times> real" where
  "rgbToOklch r g b =
     (let rn = r / 255; gn = g / 255; bn = b / 255;
          lr = srgbToLinear rn; lg = srgbToLinear gn; lb = srgbToLinear bn;
          l = 0.4122214708 * lr + 0.5363325363 * lg + 0.0514459929 * lb;
          m = 0.2119034982 * lr + 0.6806995451 * lg + 0.1073969566 * lb;
          s = 0.0883024619 * lr + 0.2817188376 * lg + 0.6299787005 * lb;
          l' = root 3 l; m' = root 3 m; s' = root 3 s;
          L = 0.2104542553 * l' + 0.7936177850 * m' - 0.0040720468 * s';
          a = 1.9779984951 * l' - 2.4285922050 * m' + 0.4505937099 * s';
          bLab = 0.0259040371 * l' + 0.7827717662 * m' - 0.8086757660 * s';
          C = sqrt (a * a + bLab * bLab);
          H0 = atan2 bLab a * (180 / pi);
          H = (if H0 < 0 then H0 + 360 else H0)
      in (L, C, H))"

section \<open>hue-histogram.ts\<close>

text \<open>
  \<open>ImageData\<close>: \<open>data\<close> is a \<open>Uint8ClampedArray\<close>; \<open>width\<close> and \<open>height\<close>
  are non-negative integers. Nothing ties the length of \<open>data\<close> to them.
\<close>

record ImageData =
  data :: "8 word list"
  width :: nat
  height :: nat

text \<open>
  \<open>buckets\<close>, \<open>max\<close> and \<open>total\<close> can hold NaN (see \<open>smoothstep\<close> and
  \<open>histogramStep\<close>). \<open>chromaSum\<close>, \<open>lightnessSum\<close> and \<open>counts\<close> are written
  at array indices only with finite numbers.
\<close>

record HueHistogram =
  buckets :: "jsnum list"
  chromaSum :: "real list"
  lightnessSum :: "real list"
  counts :: "nat list"
  hist_max :: jsnum
  total :: jsnum

datatype error = InputShapeError

text \<open>\<open>Math.max(...xs)\<close> of a non-empty array: NaN as soon as one element is NaN.\<close>

definition js_list_max :: "jsnum list \<Rightarrow> jsnum" where
  "js_list_max xs = (if None \<in> set xs then None else Some (list_max (map the xs)))"

text \<open>
  \<open>smoothstep\<close>: \<open>t = max(0, min(1, (x - edge0) / (edge1 - edge0)))\<close>, then
  \<open>t * t * (3 - 2 * t)\<close>. With \<open>edge1 = edge0\<close> the quotient is \<open>+Infinity\<close>,
  \<open>-Infinity\<close> or (for \<open>x = edge0\<close>) NaN; the clamp sends the infinities to 1 and 0
  and keeps NaN.
\<close>

definition smoothstep :: "real \<Rightarrow> real \<Rightarrow> real \<Rightarrow> jsnum" where
  "smoothstep edge0 edge1 x =
     (if edge1 - edge0 = 0 then
        (if x - edge0 > 0 then Some 1 else if x - edge0 < 0 then Some 0 else None)
      else
        let t = max 0 (min 1 ((x - edge0) / (edge1 - edge0)))
        in Some (t * t * (3 - 2 * t)))"

datatype HistogramWeightMode = WCount | WChroma

record ExtractHueHistogramOptions =
  satThreshold :: "real option"
  weightMode :: "HistogramWeightMode option"
  lightnessMargin :: "real option"

definition orDefault :: "'a option \<Rightarrow> 'a \<Rightarrow> 'a" where
  "orDefault v d = (case v of None \<Rightarrow> d | Some x \<Rightarrow> x)"

definition emptyHistogram :: HueHistogram where
  "emptyHistogram =
     \<lparr>buckets = replicate 360 (Some 0), chromaSum = replicate 360 0,
      lightnessSum = replicate 360 0, counts = replicate 360 0,
      hist_max = Some 0, total = Some 0\<rparr>"

text \<open>\<open>bucket = Math.floor(h) % 360\<close>.\<close>

definition bucketOf :: "real \<Rightarrow> nat" where
  "bucketOf h = nat (js_rem \<lfloor>h\<rfloor> 360)"

text \<open>
  The three sums and the count of an accepted pixel with finite \<open>l, c, h\<close> and
  weight \<open>w\<close>.
\<close>

definition accumulate :: "HueHistogram \<Rightarrow> nat \<Rightarrow> jsnum \<Rightarrow> real \<Rightarrow> real \<Rightarrow> HueHistogram" where
  "accumulate acc bucket w c l =
     acc\<lparr>buckets := (buckets acc)[bucket := js_add (buckets acc ! bucket) w],
         chromaSum := (chromaSum acc)[bucket := chromaSum acc ! bucket + c],
         lightnessSum := (lightnessSum acc)[bucket := lightnessSum acc ! bucket + l],
         counts := (counts acc)[bucket := counts acc ! bucket + 1],
         total := js_add (total acc) w\<rparr>"

text \<open>
  One iteration of the pixel loop of \<open>extractHueHistogram\<close> (hue-histogram.ts).
  A channel read beyond the end of \<open>data\<close> is \<open>undefined\<close>: \<open>undefined < 200\<close> is
  false, so the pixel is not skipped; with \<open>r\<close>, \<open>g\<close> or \<open>b\<close> undefined the three
  coordinates are NaN, no comparison skips the pixel, the bucket is NaN, the four
  writes go to the property \<open>NaN\<close> of the arrays and leave their 360 elements as they
  are, and \<open>total\<close> grows by the weight, which is 1 in count mode and NaN otherwise.
\<close>

definition histogramStep ::
  "real \<Rightarrow> HistogramWeightMode \<Rightarrow> real \<Rightarrow> 8 word list \<Rightarrow> HueHistogram \<Rightarrow> nat \<Rightarrow> HueHistogram" where
  "histogramStep satThr wMode margin dat acc i =
     (let minLightness = margin;
          maxLightness = 1 - margin;
          offset = int i * 4;
          r = js_read dat offset;
          g = js_read dat (offset + 1);
          b = js_read dat (offset + 2);
          a = js_read dat (offset + 3)
      in if (case a of Some av \<Rightarrow> unat av < 200 | None \<Rightarrow> False) then acc
         else case (r, g, b) of
           (Some rv, Some gv, Some bv) \<Rightarrow>
             (case rgbToOklch (real (unat rv)) (real (unat gv)) (real (unat bv)) of
               (l, c, h) \<Rightarrow>
                 if l < minLightness \<or> l > maxLightness then acc
                 else accumulate acc (bucketOf h)
                        (if wMode = WCount then Some 1 else smoothstep 0 satThr c) c l)
         | _ \<Rightarrow> acc\<lparr>total := js_add (total acc) (if wMode = WCount then Some 1 else None)\<rparr>)"

text \<open>
  \<open>extractHueHistogram\<close> of hue-histogram.ts. The function has no \<open>throw\<close> and
  calls nothing that throws: every call reaches the \<open>return\<close>.
\<close>

definition extractHueHistogram :: "ImageData \<Rightarrow> ExtractHueHistogramOptions \<Rightarrow> error + HueHistogram" where
  "extractHueHistogram imageData options =
     (let satThr = orDefault (satThreshold options) 0.02;
          wMode = orDefault (weightMode options) WChroma;
          margin = orDefault (lightnessMargin options) 0;
          acc = fold (\<lambda>i acc. histogramStep satThr wMode margin (data imageData) acc i)
                  [0 ..< width imageData * height imageData] emptyHistogram
      in Inr (acc\<lparr>hist_max := js_list_max (buckets acc)\<rparr>))"

subsection \<open>The second version of the file (minimum chroma as a gate)\<close>

datatype HistogramWeightMode_gated = GCount | GChroma | GChromaLightness

record ExtractHueHistogramOptions_gated =
  minChroma :: "real option"
  weightMode_gated :: "HistogramWeightMode_gated option"
  lightnessMargin_gated :: "real option"

definition pixelWeight_gated :: "HistogramWeightMode_gated \<Rightarrow> real \<Rightarrow> real \<Rightarrow> real" where
  "pixelWeight_gated wMode c l =
     (if wMode = GCount then 1
      else if wMode = GChroma then c
      else c * max (1 - 2 * \<bar>l - 0.5\<bar>) 0)"

definition histogramStep_gated ::
  "real \<Rightarrow> HistogramWeightMode_gated \<Rightarrow> real \<Rightarrow> 8 word list \<Rightarrow> HueHistogram \<Rightarrow> nat \<Rightarrow> HueHistogram" where
  "histogramStep_gated minC wMode margin dat acc i =
     (let minLightness = margin;
          maxLightness = 1 - margin;
          offset = int i * 4;
          r = js_read dat offset;
          g = js_read dat (offset + 1);
          b = js_read dat (offset + 2);
          a = js_read dat (offset + 3)
      in if (case a of Some av \<Rightarrow> unat av < 200 | None \<Rightarrow> False) then acc
         else case (r, g, b) of
           (Some rv, Some gv, Some bv) \<Rightarrow>
             (case rgbToOklch (real (unat rv)) (real (unat gv)) (real (unat bv)) of
               (l, c, h) \<Rightarrow>
                 if c < minC then acc
                 else if l < minLightness \<or> l > maxLightness then acc
                 else accumulate acc (bucketOf h) (Some (pixelWeight_gated wMode c l)) c l)
         | _ \<Rightarrow> acc\<lparr>total := js_add (total acc) (if wMode = GCount then Some 1 else None)\<rparr>)"

definition extractHueHistogram_gated ::
  "ImageData \<Rightarrow> ExtractHueHistogramOptions_gated \<Rightarrow> error + HueHistogram" where
  "extractHueHistogram_gated imageData options =
     (let minC = orDefault (minChroma options) 0.02;
          wMode = orDefault (weightMode_gated options) GChromaLightness;
          margin = orDefault (lightnessMargin_gated options) 0;
          acc = fold (\<lambda>i acc. histogramStep_gated minC wMode margin (data imageData) acc i)
                  [0 ..< width imageData * height imageData] emptyHistogram
      in Inr (acc\<lparr>hist_max := js_list_max (buckets acc)\<rparr>))"


section \<open>extract-peak-colors.ts\<close>

subsection \<open>Colour conversions and CIEDE2000\<close>

definition linearToSrgb :: "real \<Rightarrow> real" where
  "linearToSrgb c = (if c \<le> 0.0031308 then 12.92 * c else 1.055 * (c powr (1 / 2.4)) - 0.055)"

definition oklchToSrgb :: "real \<Rightarrow> real \<Rightarrow> real \<Rightarrow> real \<times> real \<times> real" where
  "oklchToSrgb L C H =
     (let hRad = (H * pi) / 180;
          a = C * cos hRad;
          b = C * sin hRad;
          l' = L + 0.3963377774 * a + 0.2158037573 * b;
          m' = L - 0.1055613458 * a - 0.0638541728 * b;
          s' = L - 0.0894841775 * a - 1.291485548 * b;
          l = l' * l' * l';
          m = m' * m' * m';
          s = s' * s' * s';
          lr = 4.0767416621 * l - 3.3077115913 * m + 0.2309699292 * s;
          lg = - 1.2684380046 * l + 2.6097574011 * m - 0.3413193965 * s;
          lb = - 0.0041960863 * l - 0.7034186147 * m + 1.707614701 * s
      in (max 0 (min 1 (linearToSrgb lr)),
          max 0 (min 1 (linearToSrgb lg)),
          max 0 (min 1 (linearToSrgb lb))))"

definition srgbToXyz :: "real \<Rightarrow> real \<Rightarrow> real \<Rightarrow> real \<times> real \<times> real" where
  "srgbToXyz r g b =
     (let lr = srgbToLinear r; lg = srgbToLinear g; lb = srgbToLinear b;
          x = 0.4124564 * lr + 0.3575761 * lg + 0.1804375 * lb;
          y = 0.2126729 * lr + 0.7151522 * lg + 0.072175 * lb;
          z = 0.0193339 * lr + 0.119192 * lg + 0.9503041 * lb
      in (x, y, z))"

definition labF :: "real \<Rightarrow> real" where
  "labF t = (if t > 0.008856 then root 3 t else 7.787 * t + 16 / 116)"

definition xyzToLab :: "real \<Rightarrow> real \<Rightarrow> real \<Rightarrow> real \<times> real \<times> real" where
  "xyzToLab x y z =
     (let xn = 0.95047; yn = 1.0; zn = 1.08883;
          fx = labF (x / xn); fy = labF (y / yn); fz = labF (z / zn);
          L = 116 * fy - 16;
          a = 500 * (fx - fy);
          b = 200 * (fy - fz)
      in (L, a, b))"

definition oklchToLab :: "real \<Rightarrow> real \<Rightarrow> real \<Rightarrow> real \<times> real \<times> real" where
  "oklchToLab L C H =
     (case oklchToSrgb L C H of (r, g, b) \<Rightarrow>
        (case srgbToXyz r g b of (x, y, z) \<Rightarrow> xyzToLab x y z))"

definition deltaE2000 :: "real \<Rightarrow> real \<Rightarrow> real \<Rightarrow> real \<Rightarrow> real \<Rightarrow> real \<Rightarrow> real" where
  "deltaE2000 L1 a1 b1 L2 a2 b2 =
     (let rad = pi / 180;
          deg = 180 / pi;
          C1 = sqrt (a1 * a1 + b1 * b1);
          C2 = sqrt (a2 * a2 + b2 * b2);
          Cavg = (C1 + C2) / 2;
          G = 0.5 * (1 - sqrt (Cavg ^ 7 / (Cavg ^ 7 + 25 ^ 7)));
          a1p = a1 * (1 + G);
          a2p = a2 * (1 + G);
          C1p = sqrt (a1p * a1p + b1 * b1);
          C2p = sqrt (a2p * a2p + b2 * b2);
          h1p0 = atan2 b1 a1p * deg;
          h1p = (if h1p0 < 0 then h1p0 + 360 else h1p0);
          h2p0 = atan2 b2 a2p * deg;
          h2p = (if h2p0 < 0 then h2p0 + 360 else h2p0);
          dLp = L2 - L1;
          dCp = C2p - C1p;
          dhp = (if C1p * C2p = 0 then 0
                 else let diff = h2p - h1p
                      in if diff > 180 then diff - 360
                         else if diff < - 180 then diff + 360
                         else diff);
          dHp = 2 * sqrt (C1p * C2p) * sin ((dhp / 2) * rad);
          Lp = (L1 + L2) / 2;
          Cp = (C1p + C2p) / 2;
          hp = (if C1p * C2p = 0 then h1p + h2p
                else if \<bar>h1p - h2p\<bar> \<le> 180 then (h1p + h2p) / 2
                else if h1p + h2p < 360 then (h1p + h2p + 360) / 2
                else (h1p + h2p - 360) / 2);
          T = 1 - 0.17 * cos ((hp - 30) * rad) + 0.24 * cos (2 * hp * rad)
                + 0.32 * cos ((3 * hp + 6) * rad) - 0.2 * cos ((4 * hp - 63) * rad);
          dTheta = 30 * exp (- (((hp - 275) / 25) ^ 2));
          RC = 2 * sqrt (Cp ^ 7 / (Cp ^ 7 + 25 ^ 7));
          SL = 1 + (0.015 * (Lp - 50) ^ 2) / sqrt (20 + (Lp - 50) ^ 2);
          SC = 1 + 0.045 * Cp;
          SH = 1 + 0.015 * Cp * T;
          RT = - sin (2 * dTheta * rad) * RC;
          kL = 1; kC = 1; kH = 1
      in sqrt ((dLp / (kL * SL)) ^ 2 + (dCp / (kC * SC)) ^ 2 + (dHp / (kH * SH)) ^ 2
               + RT * (dCp / (kC * SC)) * (dHp / (kH * SH))))"

subsection \<open>Peak colours\<close>

datatype ColorMode = PeakMode | AverageMode

record PeakColor =
  hue :: real
  chroma :: real
  lightness :: real
  weight :: real
  cssColor :: string
  peak :: Peak

record ExtractPeakColorsOptions =
  mode :: ColorMode
  threshold :: "real option"
  maxColors :: "int option"
  minDistance :: "real option"

definition getPeakIndices :: "Peak \<Rightarrow> nat list" where
  "getPeakIndices pk =
     (if right pk \<ge> left pk then [left pk ..< right pk + 1]
      else [left pk ..< 360] @ [0 ..< right pk + 1])"

definition calculatePeakWeight :: "real list \<Rightarrow> Peak \<Rightarrow> real" where
  "calculatePeakWeight bs pk = fold (\<lambda>idx totalWeight. totalWeight + bs ! idx) (getPeakIndices pk) 0"

definition colorDistance :: "PeakColor \<Rightarrow> PeakColor \<Rightarrow> real" where
  "colorDistance c1 c2 =
     (case oklchToLab (lightness c1) (chroma c1) (hue c1) of (L1, a1, b1) \<Rightarrow>
        (case oklchToLab (lightness c2) (chroma c2) (hue c2) of (L2, a2, b2) \<Rightarrow>
           deltaE2000 L1 a1 b1 L2 a2 b2))"

text \<open>
  The body of the outer loop of \<open>filterByDistance\<close> for one colour: the inner loop
  walks \<open>result\<close> to the first entry closer than \<open>minDistance\<close> and stops there
  (\<open>break\<close>), replacing that entry when the colour has the higher chroma and dropping
  the colour otherwise; when no entry is that close the colour is pushed.
\<close>

fun mergeColor :: "real \<Rightarrow> PeakColor \<Rightarrow> PeakColor list \<Rightarrow> PeakColor list" where
  "mergeColor d color [] = [color]"
| "mergeColor d color (r # result) =
     (if colorDistance color r < d
      then (if chroma color > chroma r then color # result else r # result)
      else r # mergeColor d color result)"

definition filterByDistance :: "PeakColor list \<Rightarrow> real \<Rightarrow> PeakColor list" where
  "filterByDistance colors d =
     (if d \<le> 0 \<or> length colors \<le> 1 then colors
      else fold (\<lambda>color result. mergeColor d color result) colors [])"

text \<open>
  \<open>x.toFixed(d)\<close> for the magnitudes that occur here (below \<open>10^21\<close>): the decimal
  numeral of \<open>x\<close> rounded to \<open>d\<close> places, halves upwards.
\<close>

definition digitChar :: "nat \<Rightarrow> char" where
  "digitChar n = char_of (48 + n mod 10)"

function showNat :: "nat \<Rightarrow> string" where
  "showNat n = (if n < 10 then [digitChar n] else showNat (n div 10) @ [digitChar n])"
  by pat_completeness auto
termination
  by (relation "measure id") auto

definition toFixed :: "real \<Rightarrow> nat \<Rightarrow> string" where
  "toFixed x d =
     (let n = nat \<lfloor>\<bar>x\<bar> * 10 ^ d + 1 / 2\<rfloor>;
          whole = showNat (n div 10 ^ d);
          frac = showNat (n mod 10 ^ d);
          padded = replicate (d - length frac) (CHR ''0'') @ frac
      in (if x < 0 then ''-'' else []) @ whole @ (if d = 0 then [] else ''.'' @ padded))"

definition makePeakColor :: "real \<Rightarrow> real \<Rightarrow> real \<Rightarrow> real \<Rightarrow> Peak \<Rightarrow> PeakColor" where
  "makePeakColor h c0 l0 w pk =
     (let l = max 0 (min 1 l0);
          c = max 0 (min 0.4 c0)
      in \<lparr>hue = h, chroma = c, lightness = l, weight = w,
          cssColor = ''oklch('' @ toFixed l 3 @ '' '' @ toFixed c 3 @ '' '' @ toFixed h 1 @ '')'',
          peak = pk\<rparr>)"

text \<open>
  The accumulators of the average mode, in the order \<open>totalWeight\<close>, \<open>hueX\<close>,
  \<open>hueY\<close>, \<open>chromaWeighted\<close>, \<open>lightnessWeighted\<close>, and one iteration of its loop.
\<close>

type_synonym averageAcc = "real \<times> real \<times> real \<times> real \<times> real"

definition averageStep :: "HueHistogram \<Rightarrow> real list \<Rightarrow> real \<Rightarrow> nat \<Rightarrow> averageAcc \<Rightarrow> averageAcc" where
  "averageStep histogram smoothedBuckets minValue idx acc =
     (case acc of (totalWeight, hueX, hueY, chromaWeighted, lightnessWeighted) \<Rightarrow>
        let count = counts histogram ! idx
        in if count = 0 then acc
           else let bucketValue = smoothedBuckets ! idx
                in if bucketValue < minValue then acc
                   else let w = bucketValue;
                            avgChroma = chromaSum histogram ! idx / real count;
                            avgLightness = lightnessSum histogram ! idx / real count;
                            rad = (real idx * pi) / 180
                        in (totalWeight + w, hueX + cos rad * w, hueY + sin rad * w,
                            chromaWeighted + avgChroma * w, lightnessWeighted + avgLightness * w))"

text \<open>
  The body of the loop of \<open>extractPeakColors\<close> for one peak; \<open>None\<close> is
  \<open>continue\<close>. The arrays are read at \<open>peak.index\<close> and at the indices of the peak's
  range: the statements below are about histograms and smoothed buckets of length 360
  and peaks with \<open>index\<close>, \<open>left\<close> and \<open>right\<close> below 360, where every read is
  inside the arrays.
\<close>

definition resolvePeak ::
  "HueHistogram \<Rightarrow> real list \<Rightarrow> ColorMode \<Rightarrow> real \<Rightarrow> Peak \<Rightarrow> PeakColor option" where
  "resolvePeak histogram smoothedBuckets md thr pk =
     (let w = calculatePeakWeight smoothedBuckets pk
      in if md = PeakMode then
           (let count = counts histogram ! index pk
            in if count = 0 then None
               else Some (makePeakColor (real (index pk))
                            (chromaSum histogram ! index pk / real count)
                            (lightnessSum histogram ! index pk / real count) w pk))
         else
           (let indices = getPeakIndices pk;
                peakBucketValue = smoothedBuckets ! index pk;
                minValue = peakBucketValue * thr
            in case fold (averageStep histogram smoothedBuckets minValue) indices (0, 0, 0, 0, 0) of
                 (totalWeight, hueX, hueY, chromaWeighted, lightnessWeighted) \<Rightarrow>
                   if totalWeight \<le> 0 then None
                   else let h0 = (atan2 hueY hueX * 180) / pi;
                            h = (if h0 < 0 then h0 + 360 else h0)
                        in Some (makePeakColor h (chromaWeighted / totalWeight)
                                   (lightnessWeighted / totalWeight) w pk)))"

text \<open>\<open>xs.slice(0, n)\<close> for an integer \<open>n\<close>: a negative \<open>n\<close> counts from the end.\<close>

definition sliceTo :: "'a list \<Rightarrow> int \<Rightarrow> 'a list" where
  "sliceTo xs n = (if n \<ge> 0 then take (nat n) xs else take (length xs - nat (- n)) xs)"

definition extractPeakColors ::
  "HueHistogram \<Rightarrow> Peak list \<Rightarrow> real list \<Rightarrow> ExtractPeakColorsOptions \<Rightarrow> PeakColor list" where
  "extractPeakColors histogram peaks smoothedBuckets options =
     (let thr = orDefault (threshold options) 0;
          maxC = orDefault (maxColors options) 5;
          minD = orDefault (minDistance options) 0;
          results = List.map_filter (resolvePeak histogram smoothedBuckets (mode options) thr) peaks;
          ranked = sort_key (\<lambda>c. - weight c) results;
          filtered = filterByDistance ranked minD
      in sliceTo filtered maxC)"

section \<open>Auxiliary notions of the statements\<close>

text \<open>The options object \<open>{}\<close> of the two versions of \<open>extractHueHistogram\<close>.\<close>

definition defaultOptions :: ExtractHueHistogramOptions where
  "defaultOptions = \<lparr>satThreshold = None, weightMode = None, lightnessMargin = None\<rparr>"

definition defaultOptions_gated :: ExtractHueHistogramOptions_gated where
  "defaultOptions_gated = \<lparr>minChroma = None, weightMode_gated = None, lightnessMargin_gated = None\<rparr>"

text \<open>A histogram whose four arrays have the 360 entries.\<close>

definition wellShaped :: "HueHistogram \<Rightarrow> bool" where
  "wellShaped h \<longleftrightarrow> length (buckets h) = 360 \<and> length (chromaSum h) = 360
      \<and> length (lightnessSum h) = 360 \<and> length (counts h) = 360"

text \<open>
  Three colours for the statements about \<open>filterByDistance\<close>: black, white and a
  grey of chroma 0.001, in descending order of weight. A list of colours is separated
  for a distance when no colour is closer than that distance to a colour before it.
\<close>

definition blackColor :: PeakColor where
  "blackColor = \<lparr>hue = 120, chroma = 0, lightness = 0, weight = 3,
      cssColor = ''oklch(0.000 0.000 120.0)'',
      peak = \<lparr>index = 120, peak_value = 3, left = 119, right = 121\<rparr>\<rparr>"

definition whiteColor :: PeakColor where
  "whiteColor = \<lparr>hue = 240, chroma = 0, lightness = 1, weight = 2,
      cssColor = ''oklch(1.000 0.000 240.0)'',
      peak = \<lparr>index = 240, peak_value = 2, left = 239, right = 241\<rparr>\<rparr>"

definition greyColor :: PeakColor where
  "greyColor = \<lparr>hue = 0, chroma = 0.001, lightness = 0.57, weight = 1,
      cssColor = ''oklch(0.570 0.001 0.0)'',
      peak = \<lparr>index = 0, peak_value = 1, left = 359, right = 1\<rparr>\<rparr>"

definition separated :: "real \<Rightarrow> PeakColor list \<Rightarrow> bool" where
  "separated d cs = sorted_wrt (\<lambda>r c. \<not> colorDistance c r < d) cs"


section \<open>Peak detection: proofs\<close>

lemma list_max_eq_Max: "b \<noteq> [] \<Longrightarrow> list_max b = Max (set b)"
proof (cases b)
  case Nil
  assume "b \<noteq> []"
  with Nil show ?thesis by simp
next
  case (Cons x xs)
  show ?thesis unfolding Cons using Max.set_eq_fold [of x xs] by simp
qed

lemma index_withBoundaries [simp]: "index (withBoundaries b p) = index p"
  by (simp add: withBoundaries_def)

lemma value_withBoundaries [simp]: "peak_value (withBoundaries b p) = peak_value p"
  by (simp add: withBoundaries_def)

lemma detectPeaks_set:
  "b \<noteq> [] \<Longrightarrow> set (detectPeaks b opts) =
     withBoundaries b ` set (candidatePeaks b (roundDouble (list_max b * minHeightOf opts)))"
  by (simp add: detectPeaks_def minHeightOf_def Let_def)

lemma detectPeaks_mem:
  "b \<noteq> [] \<Longrightarrow> p \<in> set (detectPeaks b opts) \<longleftrightarrow>
     (\<exists>i < length b. isLocalMax b (roundDouble (list_max b * minHeightOf opts)) i \<and>
        p = \<lparr>index = i, peak_value = b ! i,
             left = scanLeft b i 1 i, right = scanRight b i 1 i\<rparr>)"
proof -
  assume ne: "b \<noteq> []"
  let ?thr = "roundDouble (list_max b * minHeightOf opts)"
  have "set (detectPeaks b opts) =
      (\<lambda>i. withBoundaries b \<lparr>index = i, peak_value = b ! i, left = i, right = i\<rparr>) `
        {i. i < length b \<and> isLocalMax b ?thr i}"
    unfolding detectPeaks_set [OF ne] candidatePeaks_def set_map image_image
    by (rule arg_cong [where f = "image _"]) auto
  also have "\<dots> = (\<lambda>i. \<lparr>index = i, peak_value = b ! i,
             left = scanLeft b i 1 i, right = scanRight b i 1 i\<rparr>) `
        {i. i < length b \<and> isLocalMax b ?thr i}"
    by (simp add: withBoundaries_def)
  finally show ?thesis by (simp add: image_iff Bex_def conj_ac)
qed




lemma left_idx_int:
  assumes "0 < n" "i \<le> n"
  shows "int ((p + n - i) mod n) = (int p - int i) mod int n"
proof -
  have "int ((p + n - i) mod n) = (int p - int i + int n) mod int n"
    using assms by (simp add: zmod_int of_nat_diff algebra_simps)
  then show ?thesis by simp
qed

lemma bucketAt_int_eq:
  "int m = k mod int (length b) \<Longrightarrow> b ! m = bucketAt b k"
  by (metis bucketAt_def nat_int)

lemma scanLeft_spec:
  "0 < length b \<Longrightarrow> 1 \<le> i \<Longrightarrow> 2 * (i - 1) < length b \<Longrightarrow>
   int l = (int p - int (i - 1)) mod int (length b) \<Longrightarrow>
   (\<forall>i'. 1 \<le> i' \<and> i' < i \<longrightarrow> bucketAt b (int p - int i') < bucketAt b (int p - int i' + 1)) \<Longrightarrow>
   \<exists>j. 2 * j < length b \<and> int (scanLeft b p i l) = (int p - int j) mod int (length b) \<and>
       (\<forall>i'. 1 \<le> i' \<and> i' \<le> j \<longrightarrow> bucketAt b (int p - int i') < bucketAt b (int p - int i' + 1)) \<and>
       (2 * (j + 1) < length b \<longrightarrow> bucketAt b (int p - int j - 1) \<ge> bucketAt b (int p - int j))"
proof (induction b p i l rule: scanLeft.induct)
  case (1 b p i l)
  let ?n = "length b"
  let ?idx = "(p + ?n - i) mod ?n"
  let ?nxt = "(?idx + 1) mod ?n"
  have pred: "int (i - 1) = int i - 1" using \<open>1 \<le> i\<close> by simp
  show ?case
  proof (cases "2 * i < ?n")
    case False
    then have res: "scanLeft b p i l = l" by (subst scanLeft.simps) simp
    have "2 * (i - 1 + 1) < ?n \<longrightarrow>
           bucketAt b (int p - int (i - 1) - 1) \<ge> bucketAt b (int p - int (i - 1))"
      using False \<open>1 \<le> i\<close> by simp
    moreover have "\<forall>i'. 1 \<le> i' \<and> i' \<le> i - 1 \<longrightarrow>
           bucketAt b (int p - int i') < bucketAt b (int p - int i' + 1)"
      using "1.prems"(5) \<open>1 \<le> i\<close> by auto
    moreover have "int (scanLeft b p i l) = (int p - int (i - 1)) mod int ?n"
      using res "1.prems"(4) by simp
    ultimately show ?thesis
      using "1.prems"(3) by - (rule exI [of _ "i - 1"], simp)
  next
    case True
    have idx: "int ?idx = (int p - int i) mod int ?n"
      using left_idx_int [of ?n i p] True "1.prems"(1) by simp
    have nxt: "int ?nxt = (int p - int i + 1) mod int ?n"
    proof -
      have "int ?nxt = (int ?idx + 1) mod int ?n" by (simp only: zmod_int of_nat_add of_nat_1)
      also have "\<dots> = ((int p - int i) mod int ?n + 1) mod int ?n" by (simp only: idx)
      also have "\<dots> = (int p - int i + 1) mod int ?n" by (simp add: mod_add_left_eq)
      finally show ?thesis .
    qed
    have bidx: "b ! ?idx = bucketAt b (int p - int i)" by (rule bucketAt_int_eq [OF idx])
    have bnxt: "b ! ?nxt = bucketAt b (int p - int i + 1)" by (rule bucketAt_int_eq [OF nxt])
    show ?thesis
    proof (cases "b ! ?idx \<ge> b ! ?nxt")
      case stop: True
      have res: "scanLeft b p i l = ?nxt"
        using True stop by (subst scanLeft.simps) simp
      have a: "int (scanLeft b p i l) = (int p - int (i - 1)) mod int ?n"
        by (simp only: res nxt pred) (simp add: algebra_simps)
      have b: "\<forall>i'. 1 \<le> i' \<and> i' \<le> i - 1 \<longrightarrow>
           bucketAt b (int p - int i') < bucketAt b (int p - int i' + 1)"
        using "1.prems"(5) \<open>1 \<le> i\<close> by auto
      have c: "bucketAt b (int p - int (i - 1) - 1) \<ge> bucketAt b (int p - int (i - 1))"
        using stop by (simp only: bidx bnxt pred) (simp add: algebra_simps)
      show ?thesis using a b c "1.prems"(3) by - (rule exI [of _ "i - 1"], simp)
    next
      case go: False
      have res: "scanLeft b p i l = scanLeft b p (i + 1) ?idx"
        using True go by (subst scanLeft.simps) simp
      have inv: "\<forall>i'. 1 \<le> i' \<and> i' < i + 1 \<longrightarrow>
           bucketAt b (int p - int i') < bucketAt b (int p - int i' + 1)"
      proof (intro allI impI)
        fix i' assume h: "1 \<le> i' \<and> i' < i + 1"
        show "bucketAt b (int p - int i') < bucketAt b (int p - int i' + 1)"
        proof (cases "i' = i")
          case True
          from go have "\<not> b ! ?idx \<ge> b ! ?nxt" .
          then show ?thesis unfolding bidx bnxt True by simp
        next
          case False
          then have "1 \<le> i' \<and> i' < i" using h by simp
          then show ?thesis using "1.prems"(5) by blast
        qed
      qed
      have "\<exists>j. 2 * j < ?n \<and> int (scanLeft b p (i + 1) ?idx) = (int p - int j) mod int ?n \<and>
          (\<forall>i'. 1 \<le> i' \<and> i' \<le> j \<longrightarrow> bucketAt b (int p - int i') < bucketAt b (int p - int i' + 1)) \<and>
          (2 * (j + 1) < ?n \<longrightarrow> bucketAt b (int p - int j - 1) \<ge> bucketAt b (int p - int j))"
      proof (rule "1.IH" [OF True go "1.prems"(1)])
        show "1 \<le> i + 1" by simp
        show "2 * (i + 1 - 1) < ?n" using True by simp
        show "int ?idx = (int p - int (i + 1 - 1)) mod int ?n" using idx by simp
        show "\<forall>i'. 1 \<le> i' \<and> i' < i + 1 \<longrightarrow>
           bucketAt b (int p - int i') < bucketAt b (int p - int i' + 1)" by (rule inv)
      qed
      then show ?thesis unfolding res .
    qed
  qed
qed

lemma pred_idx_int:
  assumes "0 < n"
  shows "int ((m + n - 1) mod n) = (int m - 1) mod int n"
proof -
  have "m + n - 1 = m + (n - 1)" using assms by simp
  then have "int (m + n - 1) = int m - 1 + int n" using assms by (simp add: of_nat_diff)
  then have "int ((m + n - 1) mod n) = (int m - 1 + int n) mod int n"
    by (simp only: zmod_int)
  then show ?thesis by simp
qed

lemma scanRight_spec:
  "0 < length b \<Longrightarrow> 1 \<le> i \<Longrightarrow> 2 * (i - 1) < length b \<Longrightarrow>
   int r = (int p + int (i - 1)) mod int (length b) \<Longrightarrow>
   (\<forall>i'. 1 \<le> i' \<and> i' < i \<longrightarrow> bucketAt b (int p + int i') < bucketAt b (int p + int i' - 1)) \<Longrightarrow>
   \<exists>k. 2 * k < length b \<and> int (scanRight b p i r) = (int p + int k) mod int (length b) \<and>
       (\<forall>i'. 1 \<le> i' \<and> i' \<le> k \<longrightarrow> bucketAt b (int p + int i') < bucketAt b (int p + int i' - 1)) \<and>
       (2 * (k + 1) < length b \<longrightarrow> bucketAt b (int p + int k + 1) \<ge> bucketAt b (int p + int k))"
proof (induction b p i r rule: scanRight.induct)
  case (1 b p i r)
  let ?n = "length b"
  let ?idx = "(p + i) mod ?n"
  let ?prv = "(?idx + ?n - 1) mod ?n"
  have pred: "int (i - 1) = int i - 1" using \<open>1 \<le> i\<close> by simp
  show ?case
  proof (cases "2 * i < ?n")
    case False
    then have res: "scanRight b p i r = r" by (subst scanRight.simps) simp
    have "2 * (i - 1 + 1) < ?n \<longrightarrow>
           bucketAt b (int p + int (i - 1) + 1) \<ge> bucketAt b (int p + int (i - 1))"
      using False \<open>1 \<le> i\<close> by simp
    moreover have "\<forall>i'. 1 \<le> i' \<and> i' \<le> i - 1 \<longrightarrow>
           bucketAt b (int p + int i') < bucketAt b (int p + int i' - 1)"
      using "1.prems"(5) \<open>1 \<le> i\<close> by auto
    moreover have "int (scanRight b p i r) = (int p + int (i - 1)) mod int ?n"
      using res "1.prems"(4) by simp
    ultimately show ?thesis
      using "1.prems"(3) by - (rule exI [of _ "i - 1"], simp)
  next
    case True
    have idx: "int ?idx = (int p + int i) mod int ?n"
      by (simp add: zmod_int)
    have prv: "int ?prv = (int p + int i - 1) mod int ?n"
    proof -
      have "int ?prv = (int ?idx - 1) mod int ?n"
        using "1.prems"(1) by (rule pred_idx_int)
      also have "\<dots> = ((int p + int i) mod int ?n - 1) mod int ?n" by (simp only: idx)
      also have "\<dots> = (int p + int i - 1) mod int ?n" by (simp add: mod_diff_left_eq)
      finally show ?thesis .
    qed
    have bidx: "b ! ?idx = bucketAt b (int p + int i)" by (rule bucketAt_int_eq [OF idx])
    have bprv: "b ! ?prv = bucketAt b (int p + int i - 1)" by (rule bucketAt_int_eq [OF prv])
    show ?thesis
    proof (cases "b ! ?idx \<ge> b ! ?prv")
      case stop: True
      have res: "scanRight b p i r = ?prv"
        using True stop by (subst scanRight.simps) simp
      have a: "int (scanRight b p i r) = (int p + int (i - 1)) mod int ?n"
        by (simp only: res prv pred) (simp add: algebra_simps)
      have b: "\<forall>i'. 1 \<le> i' \<and> i' \<le> i - 1 \<longrightarrow>
           bucketAt b (int p + int i') < bucketAt b (int p + int i' - 1)"
        using "1.prems"(5) \<open>1 \<le> i\<close> by auto
      have c: "bucketAt b (int p + int (i - 1) + 1) \<ge> bucketAt b (int p + int (i - 1))"
        using stop by (simp only: bidx bprv pred) (simp add: algebra_simps)
      show ?thesis using a b c "1.prems"(3) by - (rule exI [of _ "i - 1"], simp)
    next
      case go: False
      have res: "scanRight b p i r = scanRight b p (i + 1) ?idx"
        using True go by (subst scanRight.simps) simp
      have inv: "\<forall>i'. 1 \<le> i' \<and> i' < i + 1 \<longrightarrow>
           bucketAt b (int p + int i') < bucketAt b (int p + int i' - 1)"
      proof (intro allI impI)
        fix i' assume h: "1 \<le> i' \<and> i' < i + 1"
        show "bucketAt b (int p + int i') < bucketAt b (int p + int i' - 1)"
        proof (cases "i' = i")
          case True
          from go have "\<not> b ! ?idx \<ge> b ! ?prv" .
          then show ?thesis unfolding bidx bprv True by simp
        next
          case False
          then have "1 \<le> i' \<and> i' < i" using h by simp
          then show ?thesis using "1.prems"(5) by blast
        qed
      qed
      have "\<exists>k. 2 * k < ?n \<and> int (scanRight b p (i + 1) ?idx) = (int p + int k) mod int ?n \<and>
          (\<forall>i'. 1 \<le> i' \<and> i' \<le> k \<longrightarrow> bucketAt b (int p + int i') < bucketAt b (int p + int i' - 1)) \<and>
          (2 * (k + 1) < ?n \<longrightarrow> bucketAt b (int p + int k + 1) \<ge> bucketAt b (int p + int k))"
      proof (rule "1.IH" [OF True go "1.prems"(1)])
        show "1 \<le> i + 1" by simp
        show "2 * (i + 1 - 1) < ?n" using True by simp
        show "int ?idx = (int p + int (i + 1 - 1)) mod int ?n" using idx by simp
        show "\<forall>i'. 1 \<le> i' \<and> i' < i + 1 \<longrightarrow>
           bucketAt b (int p + int i') < bucketAt b (int p + int i' - 1)" by (rule inv)
      qed
      then show ?thesis unfolding res .
    qed
  qed
qed

text \<open>An arc reaching less than half a turn to either side of a position contains it.\<close>

lemma arc_contains_index:
  assumes p: "p < 360" and j: "j \<le> 179" and k: "k \<le> 179"
    and l: "int l = (int p - int j) mod 360" and r: "int r = (int p + int k) mod 360"
  shows "p \<in> set (getPeakIndices \<lparr>index = p, peak_value = v, left = l, right = r\<rparr>)"
proof -
  have lv: "l = (if j \<le> p then p - j else p + 360 - j)"
  proof (cases "j \<le> p")
    case True
    then have "(int p - int j) mod 360 = int p - int j" using p by (simp add: mod_pos_pos_trivial)
    then show ?thesis using l True by simp
  next
    case False
    have "(int p - int j) mod 360 = (int p - int j + 360) mod 360" by simp
    also have "\<dots> = int p - int j + 360"
      using False p j by (intro mod_pos_pos_trivial) simp_all
    finally have "(int p - int j) mod 360 = int p - int j + 360" .
    then show ?thesis using l False j by simp
  qed
  have rv: "r = (if p + k < 360 then p + k else p + k - 360)"
  proof (cases "p + k < 360")
    case True
    then have "(int p + int k) mod 360 = int p + int k" by (simp add: mod_pos_pos_trivial)
    then show ?thesis using r True by simp
  next
    case False
    have "(int p + int k) mod 360 = (int p + int k - 360 + 360) mod 360" by simp
    also have "\<dots> = (int p + int k - 360) mod 360" by (simp only: mod_add_self2)
    also have "\<dots> = int p + int k - 360"
      using False p k by (intro mod_pos_pos_trivial) simp_all
    finally have "(int p + int k) mod 360 = int p + int k - 360" .
    then show ?thesis using r False by simp
  qed
  show ?thesis
    using p j k by (auto simp add: getPeakIndices_def lv rv)
qed

lemma scan_bounds_360:
  assumes len: "length bs = 360" and i: "i < 360"
  shows "\<exists>j k. j \<le> 179 \<and> k \<le> 179 \<and>
      int (scanLeft bs i 1 i) = (int i - int j) mod 360 \<and>
      int (scanRight bs i 1 i) = (int i + int k) mod 360 \<and>
      (\<forall>s. 1 \<le> s \<and> s \<le> j \<longrightarrow>
          bucketAt bs (int i - int s) < bucketAt bs (int i - int s + 1)) \<and>
      (j < 179 \<longrightarrow> bucketAt bs (int i - int j - 1) \<ge> bucketAt bs (int i - int j)) \<and>
      (\<forall>s. 1 \<le> s \<and> s \<le> k \<longrightarrow>
          bucketAt bs (int i + int s) < bucketAt bs (int i + int s - 1)) \<and>
      (k < 179 \<longrightarrow> bucketAt bs (int i + int k + 1) \<ge> bucketAt bs (int i + int k))"
proof -
  have start: "int i = (int i - int (1 - 1)) mod int (length bs)"
              "int i = (int i + int (1 - 1)) mod int (length bs)"
    using len i by simp_all
  obtain j where j: "2 * j < length bs"
      "int (scanLeft bs i 1 i) = (int i - int j) mod int (length bs)"
      "\<forall>s. 1 \<le> s \<and> s \<le> j \<longrightarrow> bucketAt bs (int i - int s) < bucketAt bs (int i - int s + 1)"
      "2 * (j + 1) < length bs \<longrightarrow> bucketAt bs (int i - int j - 1) \<ge> bucketAt bs (int i - int j)"
    using scanLeft_spec [of bs 1 i i, OF _ _ _ start(1)] len by auto
  obtain k where k: "2 * k < length bs"
      "int (scanRight bs i 1 i) = (int i + int k) mod int (length bs)"
      "\<forall>s. 1 \<le> s \<and> s \<le> k \<longrightarrow> bucketAt bs (int i + int s) < bucketAt bs (int i + int s - 1)"
      "2 * (k + 1) < length bs \<longrightarrow> bucketAt bs (int i + int k + 1) \<ge> bucketAt bs (int i + int k)"
    using scanRight_spec [of bs 1 i i, OF _ _ _ start(2)] len by auto
  have "j \<le> 179" "k \<le> 179" using j(1) k(1) len by simp_all
  moreover have "j < 179 \<longrightarrow> bucketAt bs (int i - int j - 1) \<ge> bucketAt bs (int i - int j)"
    using j(4) len by simp
  moreover have "k < 179 \<longrightarrow> bucketAt bs (int i + int k + 1) \<ge> bucketAt bs (int i + int k)"
    using k(4) len by simp
  ultimately show ?thesis
    using j(2,3) k(2,3) len
    by - (rule exI [of _ j], rule exI [of _ k], simp)
qed

lemma roundDouble_binade:
  assumes "2 powr (of_int e) \<le> \<bar>x\<bar>" "\<bar>x\<bar> < 2 powr (of_int e + 1)" "- 1022 \<le> e"
  shows "roundDouble x = 2 powr (of_int e - 52) * of_int (roundEven (x / 2 powr (of_int e - 52)))"
proof -
  have "0 < (2::real) powr (of_int e)" by simp
  then have pos: "0 < \<bar>x\<bar>" using assms(1) by (rule less_le_trans)
  have "\<lfloor>log 2 \<bar>x\<bar>\<rfloor> = e"
    using assms(1,2) pos by (simp add: floor_log_eq_powr_iff)
  then show ?thesis using pos assms(3) by (simp add: roundDouble_def Let_def max_def)
qed

lemma roundEven_int: "roundEven (of_int n) = n"
  by (simp add: roundEven_def)



lemma roundDouble_half: "roundDouble (1 / 2) = 1 / 2"
proof -
  have "roundDouble (1 / 2)
      = 2 powr (of_int (- 1) - 52) * of_int (roundEven ((1 / 2) / 2 powr (of_int (- 1) - 52)))"
    by (rule roundDouble_binade) (simp_all add: powr_minus)
  also have "(1 / 2 :: real) / 2 powr (of_int (- 1) - 52) = of_int (2 ^ 52)"
    by (simp add: powr_minus field_simps)
  also have "roundEven (of_int (2 ^ 52)) = 2 ^ 52" by (rule roundEven_int)
  finally show ?thesis by (simp add: powr_minus)
qed


text \<open>
  C5. For every detected peak of a ring of 360 buckets, \<open>left\<close> lies \<open>j \<le> 179\<close>
  steps before the index and \<open>right\<close> lies \<open>k \<le> 179\<close> steps after it, each
  side of the walk strictly descending away from the peak and stopped, one step back
  towards the peak, by the first bucket that is not smaller than its neighbour nearer
  the peak (or by the end of the half ring). The range from \<open>left\<close> to \<open>right\<close>,
  wrapping through 0 when \<open>right < left\<close>, contains the index.
\<close>

theorem peak_boundaries:
  assumes "length bs = 360" and "p \<in> set (detectPeaks bs opts)"
  shows "\<exists>j k. j \<le> 179 \<and> k \<le> 179 \<and>
      int (left p) = (int (index p) - int j) mod 360 \<and>
      int (right p) = (int (index p) + int k) mod 360 \<and>
      (\<forall>s. 1 \<le> s \<and> s \<le> j \<longrightarrow>
          bucketAt bs (int (index p) - int s) < bucketAt bs (int (index p) - int s + 1)) \<and>
      (j < 179 \<longrightarrow>
          bucketAt bs (int (index p) - int j - 1) \<ge> bucketAt bs (int (index p) - int j)) \<and>
      (\<forall>s. 1 \<le> s \<and> s \<le> k \<longrightarrow>
          bucketAt bs (int (index p) + int s) < bucketAt bs (int (index p) + int s - 1)) \<and>
      (k < 179 \<longrightarrow>
          bucketAt bs (int (index p) + int k + 1) \<ge> bucketAt bs (int (index p) + int k)) \<and>
      index p \<in> set (getPeakIndices p)"
proof -
  have ne: "bs \<noteq> []" using assms by auto
  obtain i where i: "i < 360" and p: "p = \<lparr>index = i, peak_value = bs ! i,
             left = scanLeft bs i 1 i, right = scanRight bs i 1 i\<rparr>"
    using assms by (auto simp add: detectPeaks_mem [OF ne])
  obtain j k where jk: "j \<le> 179" "k \<le> 179"
      "int (scanLeft bs i 1 i) = (int i - int j) mod 360"
      "int (scanRight bs i 1 i) = (int i + int k) mod 360"
      "\<forall>s. 1 \<le> s \<and> s \<le> j \<longrightarrow> bucketAt bs (int i - int s) < bucketAt bs (int i - int s + 1)"
      "j < 179 \<longrightarrow> bucketAt bs (int i - int j - 1) \<ge> bucketAt bs (int i - int j)"
      "\<forall>s. 1 \<le> s \<and> s \<le> k \<longrightarrow> bucketAt bs (int i + int s) < bucketAt bs (int i + int s - 1)"
      "k < 179 \<longrightarrow> bucketAt bs (int i + int k + 1) \<ge> bucketAt bs (int i + int k)"
    using scan_bounds_360 [OF assms(1) i] by blast
  have arc: "index p \<in> set (getPeakIndices p)"
    unfolding p using arc_contains_index [OF i jk(1,2,3,4)] by simp
  show ?thesis
    using jk arc unfolding p
    by - (rule exI [of _ j], rule exI [of _ k], simp)
qed

lemma detectPeaks_flat: "detectPeaks (replicate n v) opts = []"
proof (cases "n = 0")
  case True
  then show ?thesis by (simp add: detectPeaks_def)
next
  case False
  have "\<not> isLocalMax (replicate n v) t i" if "i < n" for t i
    using that False by (simp add: isLocalMax_def Let_def)
  then have "filter (isLocalMax (replicate n v) t) [0 ..< n] = []" for t
    by (simp add: filter_empty_conv)
  then show ?thesis
    using False by (simp add: detectPeaks_def candidatePeaks_def Let_def)
qed

lemma extractPeakColors_no_peaks: "extractPeakColors h [] sb popts = []"
  by (simp add: extractPeakColors_def Let_def List.map_filter_simps filterByDistance_def sliceTo_def)

text \<open>
  C10. A constant sequence of 360 buckets, whatever its value, has no peak: both
  comparisons of the local-maximum test are strict. With no peak, no colour is resolved.
\<close>

theorem flat_histogram_no_peaks:
  "detectPeaks (replicate 360 v) opts = [] \<and>
   extractPeakColors h (detectPeaks (replicate 360 v) opts) sb popts = []"
  by (simp only: detectPeaks_flat extractPeakColors_no_peaks)

lemma spike_max: "Max (set ((replicate 360 (0::real))[5 := 1])) = 1"
proof (rule Max_eqI)
  show "finite (set ((replicate 360 (0::real))[5 := 1]))" by simp
next
  fix a assume "a \<in> set ((replicate 360 (0::real))[5 := 1])"
  then have "a \<in> insert 1 (set (replicate 360 (0::real)))"
    using set_update_subset_insert by fast
  then show "a \<le> 1" by auto
next
  have "((replicate 360 (0::real))[5 := 1]) ! 5 \<in> set ((replicate 360 (0::real))[5 := 1])"
    by (rule nth_mem) simp
  then show "1 \<in> set ((replicate 360 (0::real))[5 := 1])" by simp
qed

lemma spike_scanLeft: "scanLeft ((replicate 360 (0::real))[5 := 1]) 5 1 5 = 4"
  by (simp add: scanLeft.simps [of _ _ 1] scanLeft.simps [of _ _ 2])

lemma spike_scanRight: "scanRight ((replicate 360 (0::real))[5 := 1]) 5 1 5 = 6"
  by (simp add: scanRight.simps [of _ _ 1] scanRight.simps [of _ _ 2])

lemma spike_peak_detected:
  "\<lparr>index = 5, peak_value = 1, left = 4, right = 6\<rparr>
     \<in> set (detectPeaks ((replicate 360 (0::real))[5 := 1]) \<lparr>minHeight = Some (1 / 2)\<rparr>)"
proof -
  have ne: "(replicate 360 (0::real))[5 := 1] \<noteq> []" by simp
  have lm: "list_max ((replicate 360 (0::real))[5 := 1]) = 1"
    using spike_max by (simp only: list_max_eq_Max [OF ne])
  have thr: "roundDouble (list_max ((replicate 360 (0::real))[5 := 1])
               * minHeightOf \<lparr>minHeight = Some (1 / 2)\<rparr>) = 1 / 2"
    by (simp add: lm minHeightOf_def roundDouble_half)
  have "isLocalMax ((replicate 360 (0::real))[5 := 1])
          (roundDouble (list_max ((replicate 360 (0::real))[5 := 1])
               * minHeightOf \<lparr>minHeight = Some (1 / 2)\<rparr>)) 5"
    unfolding thr by (simp add: isLocalMax_def Let_def geThreshold_def)
  then show ?thesis
    unfolding detectPeaks_mem [OF ne]
    by - (rule exI [of _ 5], simp add: spike_scanLeft spike_scanRight)
qed

theorem peak_boundaries_witness:
  "length ((replicate 360 (0::real))[5 := 1]) = 360 \<and>
   \<lparr>index = 5, peak_value = 1, left = 4, right = 6\<rparr>
     \<in> set (detectPeaks ((replicate 360 (0::real))[5 := 1]) \<lparr>minHeight = Some (1 / 2)\<rparr>) \<and>
   index \<lparr>index = 5, peak_value = 1, left = 4, right = 6\<rparr>
     \<in> set (getPeakIndices \<lparr>index = 5, peak_value = 1, left = 4, right = 6\<rparr>)"
proof -
  have len: "length ((replicate 360 (0::real))[5 := 1]) = 360" by simp
  show ?thesis
    using peak_boundaries [OF len spike_peak_detected] len spike_peak_detected
    by blast
qed









section \<open>Circular smoothing: proofs\<close>

text \<open>
  C8. For every bucket sequence and every \<open>sigma \<le> 0\<close> the smoother returns the
  input, element by element (each element a finite number, no NaN): a negative
  \<open>sigma\<close> is not rejected.
\<close>

theorem smooth_nonpositive_sigma_identity:
  "sigma \<le> 0 \<Longrightarrow> gaussianSmoothHistogram bs sigma = map Some bs"
  by (simp add: gaussianSmoothHistogram_def)

theorem smooth_nonpositive_sigma_identity_witness:
  "(-1::real) \<le> 0 \<and> gaussianSmoothHistogram [1, 2, 3] (-1) = [Some 1, Some 2, Some 3]"
  using smooth_nonpositive_sigma_identity [of "-1" "[1, 2, 3]"] by simp

section \<open>Histogram construction: proofs\<close>

lemma rgbToOklch_black: "rgbToOklch 0 0 0 = (0, 0, 0)"
  by (simp add: rgbToOklch_def srgbToLinear_def atan2_def Let_def)

lemma fold_max_replicate: "fold max (replicate n v) (v::real) = v"
  by (induction n) simp_all

lemma list_max_replicate: "0 < n \<Longrightarrow> list_max (replicate n v) = v"
  by (cases n) (simp_all add: fold_max_replicate del: fold_replicate)

lemma js_list_max_zero: "js_list_max (replicate 360 (Some 0)) = Some 0"
  by (simp add: js_list_max_def list_max_replicate)

lemma transparent_step:
  "histogramStep s m g [0, 0, 0, 0, 0, 0, 0, 0] acc 0 = acc"
  by (simp add: histogramStep_def js_read_def Let_def)

text \<open>
  C1 as stated fails: a buffer of 8 bytes for a 1 by 1 image (two transparent pixels
  where one is expected) does not make the call raise; it returns the empty histogram.
\<close>

theorem no_length_check_counterexample:
  "length (data \<lparr>data = [0, 0, 0, 0, 0, 0, 0, 0], width = 1, height = 1\<rparr>)
     \<noteq> width \<lparr>data = [0, 0, 0, 0, 0, 0, 0, 0], width = 1, height = 1\<rparr>
         * height \<lparr>data = [0, 0, 0, 0, 0, 0, 0, 0], width = 1, height = 1\<rparr> * 4 \<and>
   extractHueHistogram \<lparr>data = [0, 0, 0, 0, 0, 0, 0, 0], width = 1, height = 1\<rparr> defaultOptions
     = Inr emptyHistogram"
  by (simp add: extractHueHistogram_def Let_def transparent_step)
     (simp add: emptyHistogram_def js_list_max_zero)

text \<open>
  A buffer that is too short does not raise either: the missing channels read as
  \<open>undefined\<close>, and the histogram comes back with \<open>total\<close> NaN.
\<close>

lemma short_buffer_returns:
  "extractHueHistogram \<lparr>data = [], width = 1, height = 1\<rparr> defaultOptions
     = Inr (emptyHistogram\<lparr>total := None\<rparr>)"
  by (simp add: extractHueHistogram_def Let_def histogramStep_def js_read_def defaultOptions_def
        orDefault_def js_add_def)
     (simp add: emptyHistogram_def js_list_max_zero)

lemma wellShaped_empty: "wellShaped emptyHistogram"
  by (simp add: wellShaped_def emptyHistogram_def)

lemma wellShaped_accumulate: "wellShaped acc \<Longrightarrow> wellShaped (accumulate acc k w c l)"
  by (simp add: wellShaped_def accumulate_def)

lemma wellShaped_total: "wellShaped acc \<Longrightarrow> wellShaped (acc\<lparr>total := t\<rparr>)"
  by (simp add: wellShaped_def)

lemma wellShaped_max: "wellShaped acc \<Longrightarrow> wellShaped (acc\<lparr>hist_max := t\<rparr>)"
  by (simp add: wellShaped_def)

lemma wellShaped_step:
  "wellShaped acc \<Longrightarrow> wellShaped (histogramStep s m g dat acc i)"
  by (simp add: histogramStep_def Let_def wellShaped_accumulate wellShaped_total
      split: option.split prod.split)

lemma wellShaped_step_gated:
  "wellShaped acc \<Longrightarrow> wellShaped (histogramStep_gated s m g dat acc i)"
  by (simp add: histogramStep_gated_def Let_def wellShaped_accumulate wellShaped_total
      split: option.split prod.split)

lemma wellShaped_fold:
  "wellShaped acc \<Longrightarrow> wellShaped (fold (\<lambda>i acc. histogramStep s m g dat acc i) is acc)"
  by (induction "is" arbitrary: acc) (simp_all add: wellShaped_step)

lemma wellShaped_fold_gated:
  "wellShaped acc \<Longrightarrow> wellShaped (fold (\<lambda>i acc. histogramStep_gated s m g dat acc i) is acc)"
  by (induction "is" arbitrary: acc) (simp_all add: wellShaped_step_gated)

text \<open>
  C1, as amended. Neither version of \<open>extractHueHistogram\<close> checks the length of
  the buffer against \<open>width * height * 4\<close>: for every image, whatever the length of
  its buffer, and every options object the call returns a histogram, whose four arrays
  have 360 entries. It never raises.
\<close>

theorem extractHueHistogram_always_returns:
  "(\<exists>h. extractHueHistogram img opts = Inr h \<and> wellShaped h) \<and>
   (\<exists>h. extractHueHistogram_gated img gopts = Inr h \<and> wellShaped h)"
  by (simp add: extractHueHistogram_def extractHueHistogram_gated_def Let_def
      wellShaped_max wellShaped_fold wellShaped_fold_gated wellShaped_empty)

lemma atan2_bounds: "- pi < atan2 y x \<and> atan2 y x \<le> pi"
proof -
  have a: "- (pi / 2) < arctan (y / x)" "arctan (y / x) < pi / 2"
    by (rule arctan_lbound, rule arctan_ubound)
  have pos: "0 < pi" by (rule pi_gt_zero)
  show ?thesis
  proof (cases "x > 0")
    case True
    then show ?thesis using a pos by (simp add: atan2_def)
  next
    case False
    note nx = this
    show ?thesis
    proof (cases "x < 0")
      case True
      have q: "0 \<le> y \<Longrightarrow> arctan (y / x) \<le> 0" "y < 0 \<Longrightarrow> 0 < arctan (y / x)"
        using True by (simp_all add: divide_nonneg_neg divide_neg_neg zero_less_arctan_iff arctan_le_zero_iff)
      show ?thesis using True nx a pos q by (cases "0 \<le> y") (simp_all add: atan2_def)
    next
      case False
      then have "x = 0" using nx by simp
      then show ?thesis
        using pos by (cases "y > 0"; cases "y < 0"; simp add: atan2_def; linarith)
    qed
  qed
qed

lemma hue_range:
  assumes "rgbToOklch r g b = (l, c, h)"
  shows "0 \<le> h \<and> h < 360"
proof -
  have aux: "0 \<le> (if atan2 y x * (180 / pi) < 0 then atan2 y x * (180 / pi) + 360
                   else atan2 y x * (180 / pi)) \<and>
             (if atan2 y x * (180 / pi) < 0 then atan2 y x * (180 / pi) + 360
                   else atan2 y x * (180 / pi)) < 360" for y x
  proof -
    have pos: "0 < pi" by (rule pi_gt_zero)
    have "- pi < atan2 y x" "atan2 y x \<le> pi" using atan2_bounds by simp_all
    then have "- 180 < atan2 y x * (180 / pi)" "atan2 y x * (180 / pi) \<le> 180"
      using pos by (simp_all add: field_simps)
    then show ?thesis by auto
  qed
  have "h = snd (snd (rgbToOklch r g b))" by (simp add: assms)
  then show ?thesis
    unfolding rgbToOklch_def Let_def snd_conv by (simp only: aux)
qed

lemma js_rem_small: "0 \<le> a \<Longrightarrow> a < b \<Longrightarrow> js_rem a b = a"
  by (cases "a = 0") (simp_all add: js_rem_def)

lemma bucketOf_range: "0 \<le> h \<Longrightarrow> h < 360 \<Longrightarrow> bucketOf h < 360"
proof -
  assume "0 \<le> h" "h < 360"
  then have f: "0 \<le> \<lfloor>h\<rfloor>" "\<lfloor>h\<rfloor> < 360" by (simp_all add: floor_less_iff)
  have "js_rem \<lfloor>h\<rfloor> 360 = \<lfloor>h\<rfloor>" by (rule js_rem_small [OF f])
  then show ?thesis using f unfolding bucketOf_def by linarith
qed

text \<open>
  C2, as amended. A pixel whose four channels are read inside the buffer, whose alpha
  is at least 200 and whose lightness is inside the window adds its chroma, its
  lightness and 1 to \<open>chromaSum\<close>, \<open>lightnessSum\<close> and \<open>counts\<close> at its bucket
  (below 360) in hue-histogram.ts, whatever the weight mode and the threshold. In the
  version with the minimum-chroma gate the same holds when the chroma is at least
  \<open>minChroma\<close>; a pixel with a smaller chroma is skipped and changes nothing.
\<close>

theorem accepted_pixel_accumulates:
  assumes "js_read dat (int i * 4) = Some rv"
    and "js_read dat (int i * 4 + 1) = Some gv"
    and "js_read dat (int i * 4 + 2) = Some bv"
    and "js_read dat (int i * 4 + 3) = Some av"
    and "\<not> unat av < 200"
    and "rgbToOklch (real (unat rv)) (real (unat gv)) (real (unat bv)) = (l, c, h)"
    and "\<not> (l < margin \<or> l > 1 - margin)"
  shows "bucketOf h < 360 \<and>
     chromaSum (histogramStep satThr wMode margin dat acc i)
       = (chromaSum acc)[bucketOf h := chromaSum acc ! bucketOf h + c] \<and>
     lightnessSum (histogramStep satThr wMode margin dat acc i)
       = (lightnessSum acc)[bucketOf h := lightnessSum acc ! bucketOf h + l] \<and>
     counts (histogramStep satThr wMode margin dat acc i)
       = (counts acc)[bucketOf h := counts acc ! bucketOf h + 1] \<and>
     (minC \<le> c \<longrightarrow>
        chromaSum (histogramStep_gated minC gMode margin dat acc i)
          = (chromaSum acc)[bucketOf h := chromaSum acc ! bucketOf h + c] \<and>
        lightnessSum (histogramStep_gated minC gMode margin dat acc i)
          = (lightnessSum acc)[bucketOf h := lightnessSum acc ! bucketOf h + l] \<and>
        counts (histogramStep_gated minC gMode margin dat acc i)
          = (counts acc)[bucketOf h := counts acc ! bucketOf h + 1]) \<and>
     (c < minC \<longrightarrow> histogramStep_gated minC gMode margin dat acc i = acc)"
proof -
  have k: "bucketOf h < 360"
    using hue_range [OF assms(6)] bucketOf_range by blast
  have s: "histogramStep satThr wMode margin dat acc i
      = accumulate acc (bucketOf h) (if wMode = WCount then Some 1 else smoothstep 0 satThr c) c l"
    using assms by (simp add: histogramStep_def Let_def)
  have g1: "histogramStep_gated minC gMode margin dat acc i
      = accumulate acc (bucketOf h) (Some (pixelWeight_gated gMode c l)) c l" if "minC \<le> c"
    using assms that by (simp add: histogramStep_gated_def Let_def)
  have g2: "histogramStep_gated minC gMode margin dat acc i = acc" if "c < minC"
    using assms that by (simp add: histogramStep_gated_def Let_def)
  show ?thesis
    using k g1 g2 by (simp add: s accumulate_def)
qed

theorem accepted_pixel_accumulates_witness:
  "counts (histogramStep 0.02 WChroma 0 [0, 0, 0, 255] emptyHistogram 0) ! 0 = 1 \<and>
   counts (histogramStep_gated 0 GCount 0 [0, 0, 0, 255] emptyHistogram 0) ! 0 = 1 \<and>
   histogramStep_gated 0.02 GChromaLightness 0 [0, 0, 0, 255] emptyHistogram 0 = emptyHistogram"
proof -
  have r: "js_read [0, 0, 0, 255 :: 8 word] (int 0 * 4) = Some 0"
          "js_read [0, 0, 0, 255 :: 8 word] (int 0 * 4 + 1) = Some 0"
          "js_read [0, 0, 0, 255 :: 8 word] (int 0 * 4 + 2) = Some 0"
          "js_read [0, 0, 0, 255 :: 8 word] (int 0 * 4 + 3) = Some 255"
    by (simp_all add: js_read_def)
  have a: "\<not> unat (255 :: 8 word) < 200" by simp
  have c: "rgbToOklch (real (unat (0 :: 8 word))) (real (unat (0 :: 8 word)))
             (real (unat (0 :: 8 word))) = (0, 0, 0)"
    by (simp add: rgbToOklch_black)
  have w: "\<not> ((0::real) < 0 \<or> (0::real) > 1 - 0)" by simp
  have b0: "bucketOf 0 = 0" by (simp add: bucketOf_def js_rem_def)
  show ?thesis
    using accepted_pixel_accumulates [OF r a c w, where satThr = "0.02" and wMode = WChroma
        and acc = emptyHistogram and minC = "0.02" and gMode = GChromaLightness]
      accepted_pixel_accumulates [OF r a c w, where satThr = "0.02" and wMode = WChroma
        and acc = emptyHistogram and minC = 0 and gMode = GCount]
    by (simp add: b0 emptyHistogram_def)
qed

text \<open>
  C2 as stated fails in the version with the gate: an opaque black pixel passes the
  alpha cutoff and the lightness window (margin 0), and the histogram of the image made
  of that pixel is the empty one, all counts 0.
\<close>

theorem chroma_gate_skips_counterexample:
  "js_read [0, 0, 0, 255 :: 8 word] 3 = Some 255 \<and> \<not> unat (255 :: 8 word) < 200 \<and>
   rgbToOklch (real (unat (0 :: 8 word))) (real (unat (0 :: 8 word))) (real (unat (0 :: 8 word)))
     = (0, 0, 0) \<and>
   \<not> ((0::real) < 0 \<or> (0::real) > 1 - 0) \<and>
   extractHueHistogram_gated \<lparr>data = [0, 0, 0, 255], width = 1, height = 1\<rparr> defaultOptions_gated
     = Inr emptyHistogram"
proof -
  have "histogramStep_gated 0.02 GChromaLightness 0 [0, 0, 0, 255] emptyHistogram 0 = emptyHistogram"
    by (simp add: histogramStep_gated_def js_read_def Let_def rgbToOklch_black)
  then have "extractHueHistogram_gated \<lparr>data = [0, 0, 0, 255], width = 1, height = 1\<rparr>
      defaultOptions_gated = Inr (emptyHistogram\<lparr>hist_max := js_list_max (buckets emptyHistogram)\<rparr>)"
    by (simp add: extractHueHistogram_gated_def defaultOptions_gated_def orDefault_def Let_def)
  then show ?thesis
    by (simp add: js_read_def rgbToOklch_black) (simp add: emptyHistogram_def js_list_max_zero)
qed

section \<open>Circular smoothing with a kernel wider than the ring\<close>

lemma js_add_None [simp]: "js_add None y = None" "js_add x None = None"
  by (simp_all add: js_add_def split: option.split)

lemma fold_js_add_None:
  "fold (\<lambda>k acc. js_add acc (f k)) ks None = None"
  by (induction ks) simp_all

lemma fold_js_add_NaN_term:
  "k \<in> set ks \<Longrightarrow> f k = None \<Longrightarrow> fold (\<lambda>k acc. js_add acc (f k)) ks a = None"
proof (induction ks arbitrary: a)
  case Nil
  then show ?case by simp
next
  case (Cons x xs)
  show ?case
  proof (cases "x = k")
    case True
    then show ?thesis using Cons.prems by (simp add: fold_js_add_None)
  next
    case False
    then show ?thesis using Cons by simp
  qed
qed

lemma smoothAt_NaN:
  "k < length kern \<Longrightarrow> smoothTerm bs kern radius i k = None \<Longrightarrow> smoothAt bs kern radius i = None"
  unfolding smoothAt_def by (rule fold_js_add_NaN_term [where k = k]) simp_all

lemma length_rawKernel: "length (rawKernel sigma) = nat (kernelRadius sigma * 2 + 1)"
  by (simp add: rawKernel_def Let_def)

lemma length_generateGaussianKernel:
  "length (generateGaussianKernel sigma) = nat (kernelRadius sigma * 2 + 1)"
  by (simp add: generateGaussianKernel_def Let_def length_rawKernel)

lemma kernel_121: "length (generateGaussianKernel 121) = 727"
  by (simp add: length_generateGaussianKernel kernelRadius_def)

lemma smoothTerm_121: "smoothTerm (replicate 360 1) kern 363 0 0 = None"
  by (simp add: smoothTerm_def Let_def js_rem_def js_read_def js_mul_def)

lemma smooth_121_first: "gaussianSmoothHistogram (replicate 360 1) 121 ! 0 = None"
proof -
  have "smoothAt (replicate 360 1) (generateGaussianKernel 121) 363 0 = None"
    by (rule smoothAt_NaN [where k = 0]) (simp_all add: kernel_121 smoothTerm_121)
  then show ?thesis
    by (simp add: gaussianSmoothHistogram_def Let_def kernel_121)
qed

text \<open>
  C7 at \<open>sigma = 121\<close> on 360 buckets equal to 1. The radius is 363, larger than the
  ring: at output position 0 and kernel position 0 the index is
  \<open>(0 + 0 - 363 + 360) % 360 = -3\<close>, the read is \<open>undefined\<close> and the sum is NaN.
  The sum of the smoothed values is NaN, the sum of the input is 360.
\<close>

theorem wide_kernel_reads_outside:
  "(121::real) > 0 \<and> length (replicate 360 (1::real)) = 360 \<and>
   fold (\<lambda>v acc. js_add acc v) (gaussianSmoothHistogram (replicate 360 1) 121) (Some 0) = None \<and>
   sum_list (replicate 360 (1::real)) = 360"
proof -
  have len: "length (gaussianSmoothHistogram (replicate 360 1) 121) = 360"
    by (simp add: gaussianSmoothHistogram_def Let_def)
  have "gaussianSmoothHistogram (replicate 360 1) 121 ! 0
          \<in> set (gaussianSmoothHistogram (replicate 360 1) 121)"
    by (rule nth_mem) (simp add: len)
  then have "None \<in> set (gaussianSmoothHistogram (replicate 360 1) 121)"
    by (simp only: smooth_121_first)
  then have "fold (\<lambda>v acc. js_add acc ((\<lambda>x. x) v)) (gaussianSmoothHistogram (replicate 360 1) 121)
      (Some 0) = None"
    by (rule fold_js_add_NaN_term) simp
  then show ?thesis by (simp add: sum_list_replicate)
qed

text \<open>
  C9 at the same input: the first smoothed value is NaN, so it does not lie between the
  minimum and the maximum of the input (both 1).
\<close>

theorem wide_kernel_value_is_NaN:
  "length (gaussianSmoothHistogram (replicate 360 1) 121) = 360 \<and>
   gaussianSmoothHistogram (replicate 360 1) 121 ! 0 = None"
  by (simp add: smooth_121_first) (simp add: gaussianSmoothHistogram_def Let_def)

section \<open>Distance filter: proofs\<close>

lemma core_upper:
  fixes dL dC dH SL SC SH RT :: real
  assumes "1 \<le> SL" "1 \<le> SC" "1 \<le> SH" "\<bar>RT\<bar> \<le> 2"
  shows "sqrt ((dL / (1 * SL))\<^sup>2 + (dC / (1 * SC))\<^sup>2 + (dH / (1 * SH))\<^sup>2
               + RT * (dC / (1 * SC)) * (dH / (1 * SH))) \<le> \<bar>dL\<bar> + \<bar>dC\<bar> + \<bar>dH\<bar>"
proof -
  define x where "x = dL / SL"
  define y where "y = dC / SC"
  define z where "z = dH / SH"
  have ax: "\<bar>x\<bar> \<le> \<bar>dL\<bar>"
    unfolding x_def using assms(1) by (simp add: field_simps mult_le_cancel_left1 abs_mult)
       (metis abs_ge_zero mult_left_mono mult.right_neutral mult.commute)
  have ay: "\<bar>y\<bar> \<le> \<bar>dC\<bar>"
    unfolding y_def using assms(2) by (simp add: field_simps abs_mult)
       (metis abs_ge_zero mult_left_mono mult.right_neutral mult.commute)
  have az: "\<bar>z\<bar> \<le> \<bar>dH\<bar>"
    unfolding z_def using assms(3) by (simp add: field_simps abs_mult)
       (metis abs_ge_zero mult_left_mono mult.right_neutral mult.commute)
  have "RT * y * z \<le> \<bar>RT * y * z\<bar>" by simp
  also have "\<dots> = \<bar>RT\<bar> * (\<bar>y\<bar> * \<bar>z\<bar>)" by (simp add: abs_mult)
  also have "\<dots> \<le> 2 * (\<bar>y\<bar> * \<bar>z\<bar>)"
    using assms(4) by (intro mult_right_mono) simp_all
  finally have rt: "RT * y * z \<le> 2 * (\<bar>y\<bar> * \<bar>z\<bar>)" .
  have "x\<^sup>2 + y\<^sup>2 + z\<^sup>2 + RT * y * z \<le> \<bar>x\<bar>\<^sup>2 + \<bar>y\<bar>\<^sup>2 + \<bar>z\<bar>\<^sup>2 + 2 * (\<bar>y\<bar> * \<bar>z\<bar>)"
    using rt by simp
  also have "\<dots> \<le> (\<bar>x\<bar> + \<bar>y\<bar> + \<bar>z\<bar>)\<^sup>2"
  proof -
    have "0 \<le> 2 * \<bar>x\<bar> * (\<bar>y\<bar> + \<bar>z\<bar>)" by simp
    then show ?thesis by (simp add: power2_eq_square algebra_simps)
  qed
  finally have "sqrt (x\<^sup>2 + y\<^sup>2 + z\<^sup>2 + RT * y * z) \<le> \<bar>x\<bar> + \<bar>y\<bar> + \<bar>z\<bar>"
    by (intro real_le_lsqrt) simp_all
  then have "sqrt (x\<^sup>2 + y\<^sup>2 + z\<^sup>2 + RT * y * z) \<le> \<bar>dL\<bar> + \<bar>dC\<bar> + \<bar>dH\<bar>"
    using ax ay az by linarith
  moreover have "(dL / (1 * SL))\<^sup>2 + (dC / (1 * SC))\<^sup>2 + (dH / (1 * SH))\<^sup>2
               + RT * (dC / (1 * SC)) * (dH / (1 * SH)) = x\<^sup>2 + y\<^sup>2 + z\<^sup>2 + RT * y * z"
    unfolding x_def y_def z_def by simp
  ultimately show ?thesis by (simp only:)
qed

lemma core_lower:
  fixes dL dC dH SL SC SH RT :: real
  assumes "1 \<le> SL" "SL \<le> 7 / 4" "\<bar>RT\<bar> \<le> 2"
  shows "\<bar>dL\<bar> * 4 / 7 \<le> sqrt ((dL / (1 * SL))\<^sup>2 + (dC / (1 * SC))\<^sup>2 + (dH / (1 * SH))\<^sup>2
               + RT * (dC / (1 * SC)) * (dH / (1 * SH)))"
proof -
  define x where "x = dL / SL"
  define y where "y = dC / SC"
  define z where "z = dH / SH"
  have "- (RT * y * z) \<le> \<bar>RT * y * z\<bar>" by (metis abs_ge_minus_self)
  also have "\<dots> = \<bar>RT\<bar> * (\<bar>y\<bar> * \<bar>z\<bar>)" by (simp add: abs_mult)
  also have "\<dots> \<le> 2 * (\<bar>y\<bar> * \<bar>z\<bar>)"
    using assms(3) by (intro mult_right_mono) simp_all
  finally have rt: "- (2 * (\<bar>y\<bar> * \<bar>z\<bar>)) \<le> RT * y * z" by simp
  have "0 \<le> (\<bar>y\<bar> - \<bar>z\<bar>)\<^sup>2" by simp
  then have "0 \<le> y\<^sup>2 + z\<^sup>2 - 2 * (\<bar>y\<bar> * \<bar>z\<bar>)"
    by (simp add: power2_eq_square algebra_simps)
  then have "x\<^sup>2 \<le> x\<^sup>2 + y\<^sup>2 + z\<^sup>2 + RT * y * z" using rt by simp
  then have "sqrt (x\<^sup>2) \<le> sqrt (x\<^sup>2 + y\<^sup>2 + z\<^sup>2 + RT * y * z)"
    by (rule real_sqrt_le_mono)
  then have a: "\<bar>x\<bar> \<le> sqrt (x\<^sup>2 + y\<^sup>2 + z\<^sup>2 + RT * y * z)" by simp
  have "(SL * 4) * \<bar>dL\<bar> \<le> 7 * \<bar>dL\<bar>"
    using assms(2) by (intro mult_right_mono) simp_all
  then have "\<bar>dL\<bar> * 4 / 7 \<le> \<bar>dL\<bar> / SL"
    using assms(1) by (simp add: field_simps)
  also have "\<dots> = \<bar>x\<bar>" unfolding x_def using assms(1) by simp
  finally have "\<bar>dL\<bar> * 4 / 7 \<le> sqrt (x\<^sup>2 + y\<^sup>2 + z\<^sup>2 + RT * y * z)"
    using a by (rule order_trans)
  moreover have "(dL / (1 * SL))\<^sup>2 + (dC / (1 * SC))\<^sup>2 + (dH / (1 * SH))\<^sup>2
               + RT * (dC / (1 * SC)) * (dH / (1 * SH)) = x\<^sup>2 + y\<^sup>2 + z\<^sup>2 + RT * y * z"
    unfolding x_def y_def z_def by simp
  ultimately show ?thesis by (simp only:)
qed

lemma ratio7_bounds:
  fixes c :: real
  assumes "0 \<le> c"
  shows "0 \<le> c ^ 7 / (c ^ 7 + 25 ^ 7)" "c ^ 7 / (c ^ 7 + 25 ^ 7) \<le> 1"
proof -
  have p: "0 \<le> c ^ 7" using assms by simp
  have q: "0 < c ^ 7 + (25::real) ^ 7" by (rule add_nonneg_pos [OF p]) simp
  show "0 \<le> c ^ 7 / (c ^ 7 + 25 ^ 7)" using p q by simp
  show "c ^ 7 / (c ^ 7 + 25 ^ 7) \<le> 1" using p q by (simp add: field_simps)
qed

lemma sqrt_ratio7_bounds:
  fixes c :: real
  assumes "0 \<le> c"
  shows "0 \<le> sqrt (c ^ 7 / (c ^ 7 + 25 ^ 7))" "sqrt (c ^ 7 / (c ^ 7 + 25 ^ 7)) \<le> 1"
  using ratio7_bounds [OF assms] by (simp_all add: real_sqrt_le_1_iff)

lemma chroma_nonneg: "0 \<le> sqrt (u * u + v * v)" for u v :: real
  by simp

lemma chroma_le: "sqrt (u * u + v * v) \<le> \<bar>u\<bar> + \<bar>v\<bar>" for u v :: real
proof (rule real_le_lsqrt)
  show "0 \<le> \<bar>u\<bar> + \<bar>v\<bar>" by simp
  have "0 \<le> 2 * (\<bar>u\<bar> * \<bar>v\<bar>)" by simp
  moreover have "(\<bar>u\<bar> + \<bar>v\<bar>)\<^sup>2 = u * u + v * v + 2 * (\<bar>u\<bar> * \<bar>v\<bar>)"
    by (simp add: power2_eq_square algebra_simps)
  ultimately show "u * u + v * v \<le> (\<bar>u\<bar> + \<bar>v\<bar>)\<^sup>2" by simp
qed

lemma SL_bounds:
  fixes q :: real
  shows "1 \<le> 1 + 0.015 * q\<^sup>2 / sqrt (20 + q\<^sup>2)"
    and "\<bar>q\<bar> \<le> 50 \<Longrightarrow> 1 + 0.015 * q\<^sup>2 / sqrt (20 + q\<^sup>2) \<le> 7 / 4"
proof -
  have s: "0 < sqrt (20 + q\<^sup>2)" by (simp add: add_pos_nonneg)
  show "1 \<le> 1 + 0.015 * q\<^sup>2 / sqrt (20 + q\<^sup>2)" using s by simp
  assume q: "\<bar>q\<bar> \<le> 50"
  have "\<bar>q\<bar> = sqrt (q\<^sup>2)" by simp
  also have "\<dots> \<le> sqrt (20 + q\<^sup>2)" by (rule real_sqrt_le_mono) simp
  finally have a: "\<bar>q\<bar> \<le> sqrt (20 + q\<^sup>2)" .
  have "q\<^sup>2 = \<bar>q\<bar> * \<bar>q\<bar>" by (simp add: power2_eq_square)
  also have "\<dots> \<le> 50 * sqrt (20 + q\<^sup>2)"
    using q a by (intro mult_mono) simp_all
  finally have "q\<^sup>2 / sqrt (20 + q\<^sup>2) \<le> 50" using s by (simp add: field_simps)
  then show "1 + 0.015 * q\<^sup>2 / sqrt (20 + q\<^sup>2) \<le> 7 / 4" by simp
qed

lemma T_pos: "0 \<le> 1 - 0.17 * cos p1 + 0.24 * cos p2 + 0.32 * cos p3 - 0.2 * cos p4" for p1 :: real
proof -
  have "cos p1 \<le> 1" "- 1 \<le> cos p2" "- 1 \<le> cos p3" "cos p4 \<le> 1" by simp_all
  then have "0 \<le> 1 - (17 / 100) * cos p1 + (24 / 100) * cos p2 + (32 / 100) * cos p3
          - (2 / 10) * cos p4" by linarith
  then show ?thesis by simp
qed

lemma RT_bound:
  fixes c s :: real
  assumes "0 \<le> c"
  shows "\<bar>- sin s * (2 * sqrt (c ^ 7 / (c ^ 7 + 25 ^ 7)))\<bar> \<le> 2"
proof -
  have "\<bar>- sin s * (2 * sqrt (c ^ 7 / (c ^ 7 + 25 ^ 7)))\<bar>
      = \<bar>sin s\<bar> * (2 * sqrt (c ^ 7 / (c ^ 7 + 25 ^ 7)))"
    using sqrt_ratio7_bounds(1) [OF assms] by (simp add: abs_mult)
  also have "\<dots> \<le> 1 * (2 * 1)"
    using sqrt_ratio7_bounds [OF assms] by (intro mult_mono) simp_all
  finally show ?thesis by simp
qed

lemma primed_chroma_le:
  fixes a b G :: real
  assumes "0 \<le> G" "G \<le> 1 / 2"
  shows "sqrt (a * (1 + G) * (a * (1 + G)) + b * b) \<le> 3 / 2 * (\<bar>a\<bar> + \<bar>b\<bar>)"
proof -
  have "sqrt (a * (1 + G) * (a * (1 + G)) + b * b) \<le> \<bar>a * (1 + G)\<bar> + \<bar>b\<bar>"
    by (rule chroma_le)
  also have "\<bar>a * (1 + G)\<bar> = \<bar>a\<bar> * (1 + G)" using assms by (simp add: abs_mult)
  also have "\<bar>a\<bar> * (1 + G) \<le> \<bar>a\<bar> * (3 / 2)"
    using assms by (intro mult_left_mono) simp_all
  finally show ?thesis by simp
qed

lemma dC_dH_bound:
  fixes C1p C2p s :: real
  assumes "0 \<le> C1p" "0 \<le> C2p"
  shows "\<bar>C2p - C1p\<bar> + \<bar>2 * sqrt (C1p * C2p) * sin s\<bar> \<le> 2 * (C1p + C2p)"
proof -
  have "\<bar>C2p - C1p\<bar> \<le> C1p + C2p" using assms by simp
  moreover have "\<bar>2 * sqrt (C1p * C2p) * sin s\<bar> \<le> C1p + C2p"
  proof -
    have "\<bar>2 * sqrt (C1p * C2p) * sin s\<bar> = 2 * sqrt (C1p * C2p) * \<bar>sin s\<bar>"
      using assms by (simp add: abs_mult)
    also have "\<dots> \<le> 2 * sqrt (C1p * C2p) * 1"
      using assms by (intro mult_left_mono) simp_all
    also have "\<dots> \<le> C1p + C2p"
    proof -
      have "sqrt (C1p * C2p) \<le> (C1p + C2p) / 2"
        using arith_geo_mean_sqrt [OF assms] by simp
      then show ?thesis by simp
    qed
    finally show ?thesis .
  qed
  ultimately show ?thesis by simp
qed

lemma G_bounds:
  fixes c :: real
  assumes "0 \<le> c"
  shows "0 \<le> 0.5 * (1 - sqrt (c ^ 7 / (c ^ 7 + 25 ^ 7)))"
    and "0.5 * (1 - sqrt (c ^ 7 / (c ^ 7 + 25 ^ 7))) \<le> 1 / 2"
  using sqrt_ratio7_bounds [OF assms] by simp_all

lemma avg_chroma_nonneg: "0 \<le> (sqrt (u * u + v * v) + sqrt (w * w + t * t)) / 2" for u :: real
  by simp

lemma SH_ge1:
  fixes c :: real
  assumes "0 \<le> c"
  shows "1 \<le> 1 + 0.015 * c * (1 - 0.17 * cos p1 + 0.24 * cos p2 + 0.32 * cos p3 - 0.2 * cos p4)"
proof -
  have "0 \<le> c * (1 - 0.17 * cos p1 + 0.24 * cos p2 + 0.32 * cos p3 - 0.2 * cos p4)"
    using assms T_pos by (rule mult_nonneg_nonneg)
  then show ?thesis by simp
qed

lemma deltaE2000_upper:
  "deltaE2000 L1 a1 b1 L2 a2 b2 \<le> \<bar>L2 - L1\<bar> + 3 * (\<bar>a1\<bar> + \<bar>b1\<bar> + \<bar>a2\<bar> + \<bar>b2\<bar>)"
proof -
  define G where "G = 0.5 * (1 - sqrt (((sqrt (a1 * a1 + b1 * b1) + sqrt (a2 * a2 + b2 * b2)) / 2) ^ 7
       / (((sqrt (a1 * a1 + b1 * b1) + sqrt (a2 * a2 + b2 * b2)) / 2) ^ 7 + 25 ^ 7)))"
  have G: "0 \<le> G" "G \<le> 1 / 2"
    unfolding G_def by (rule G_bounds [OF avg_chroma_nonneg])+
  define C1p where "C1p = sqrt (a1 * (1 + G) * (a1 * (1 + G)) + b1 * b1)"
  define C2p where "C2p = sqrt (a2 * (1 + G) * (a2 * (1 + G)) + b2 * b2)"
  have C: "0 \<le> C1p" "0 \<le> C2p" "C1p \<le> 3 / 2 * (\<bar>a1\<bar> + \<bar>b1\<bar>)" "C2p \<le> 3 / 2 * (\<bar>a2\<bar> + \<bar>b2\<bar>)"
    unfolding C1p_def C2p_def using primed_chroma_le [OF G] by simp_all
  have Cp: "0 \<le> (C1p + C2p) / 2" using C by simp
  have fin: "\<bar>L2 - L1\<bar> + \<bar>C2p - C1p\<bar> + \<bar>2 * sqrt (C1p * C2p) * sin s\<bar>
          \<le> \<bar>L2 - L1\<bar> + 3 * (\<bar>a1\<bar> + \<bar>b1\<bar> + \<bar>a2\<bar> + \<bar>b2\<bar>)" for s
  proof -
    define X where "X = \<bar>C2p - C1p\<bar> + \<bar>2 * sqrt (C1p * C2p) * sin s\<bar>"
    define A where "A = \<bar>a1\<bar> + \<bar>b1\<bar>"
    define B where "B = \<bar>a2\<bar> + \<bar>b2\<bar>"
    have "X \<le> 2 * (C1p + C2p)" unfolding X_def by (rule dC_dH_bound [OF C(1,2)])
    moreover have "C1p \<le> 3 / 2 * A" "C2p \<le> 3 / 2 * B" unfolding A_def B_def by (rule C(3), rule C(4))
    ultimately have "X \<le> 3 * (A + B)" by argo
    then show ?thesis unfolding X_def A_def B_def by simp
  qed
  show ?thesis
    unfolding deltaE2000_def Let_def G_def [symmetric] C1p_def [symmetric] C2p_def [symmetric]
    apply (rule order_trans [OF core_upper])
    subgoal by (rule SL_bounds(1))
    subgoal using Cp by simp
    subgoal by (rule SH_ge1 [OF Cp])
    subgoal by (rule RT_bound [OF Cp])
    subgoal by (rule fin)
    done
qed

lemma deltaE2000_lower:
  assumes "0 \<le> L1 + L2" "L1 + L2 \<le> 200"
  shows "\<bar>L2 - L1\<bar> * 4 / 7 \<le> deltaE2000 L1 a1 b1 L2 a2 b2"
proof -
  define G where "G = 0.5 * (1 - sqrt (((sqrt (a1 * a1 + b1 * b1) + sqrt (a2 * a2 + b2 * b2)) / 2) ^ 7
       / (((sqrt (a1 * a1 + b1 * b1) + sqrt (a2 * a2 + b2 * b2)) / 2) ^ 7 + 25 ^ 7)))"
  define C1p where "C1p = sqrt (a1 * (1 + G) * (a1 * (1 + G)) + b1 * b1)"
  define C2p where "C2p = sqrt (a2 * (1 + G) * (a2 * (1 + G)) + b2 * b2)"
  have Cp: "0 \<le> (C1p + C2p) / 2" unfolding C1p_def C2p_def by simp
  have q: "\<bar>(L1 + L2) / 2 - 50\<bar> \<le> 50" using assms by (simp add: abs_le_iff)
  show ?thesis
    unfolding deltaE2000_def Let_def G_def [symmetric] C1p_def [symmetric] C2p_def [symmetric]
    apply (rule core_lower)
    subgoal by (rule SL_bounds(1))
    subgoal by (rule SL_bounds(2) [OF q])
    subgoal by (rule RT_bound [OF Cp])
    done
qed

lemma root3_lower:
  fixes lo t :: real
  assumes "0 \<le> lo" "lo * lo * lo \<le> t"
  shows "lo \<le> root 3 t"
proof -
  have "root 3 (lo ^ 3) \<le> root 3 t"
    using assms(2) by (intro real_root_le_mono) (simp_all add: power3_eq_cube)
  then show ?thesis using assms(1) by (simp add: real_root_power_cancel)
qed

lemma root3_upper:
  fixes hi t :: real
  assumes "0 \<le> hi" "t \<le> hi * hi * hi"
  shows "root 3 t \<le> hi"
proof -
  have "root 3 t \<le> root 3 (hi ^ 3)"
    using assms(2) by (intro real_root_le_mono) (simp_all add: power3_eq_cube)
  then show ?thesis using assms(1) by (simp add: real_root_power_cancel)
qed

lemma srgb_roundtrip:
  fixes x :: real
  assumes "1 / 10 \<le> x" "x \<le> 1"
  shows "srgbToLinear (max 0 (min 1 (linearToSrgb x))) = x"
proof -
  have x0: "0 < x" "0 \<le> x" using assms by simp_all
  define p where "p = x powr (1 / 2.4)"
  have p1: "p \<le> 1" unfolding p_def using x0 assms(2) by (intro powr_le1) simp_all
  have "x powr 1 \<le> x powr (1 / 2.4)" using x0 assms(2) by (intro powr_mono') simp_all
  then have px: "x \<le> p" unfolding p_def using x0 by simp
  have lin: "linearToSrgb x = 1.055 * p - 0.055"
    using assms(1) by (simp add: linearToSrgb_def p_def)
  have lo: "0.04045 < 1.055 * p - 0.055" using px assms(1) by simp
  have hi: "1.055 * p - 0.055 \<le> 1" using p1 by simp
  have clamp: "max 0 (min 1 (1.055 * p - 0.055)) = 1.055 * p - 0.055"
    using lo hi by simp
  have "srgbToLinear (1.055 * p - 0.055) = ((1.055 * p - 0.055 + 0.055) / 1.055) powr 2.4"
    using lo by (simp add: srgbToLinear_def)
  also have "(1.055 * p - 0.055 + 0.055) / 1.055 = p" by simp
  also have "p powr 2.4 = x powr ((1 / 2.4) * 2.4)" unfolding p_def by (simp only: powr_powr)
  also have "\<dots> = x" using x0 by simp
  finally show ?thesis by (simp only: lin clamp)
qed

lemma linearToSrgb_0: "linearToSrgb 0 = 0"
  by (simp add: linearToSrgb_def)

lemma linearToSrgb_1: "linearToSrgb 1 = 1"
  by (simp add: linearToSrgb_def)

lemma oklchToSrgb_black: "oklchToSrgb 0 0 h = (0, 0, 0)"
  unfolding oklchToSrgb_def Let_def by (simp add: linearToSrgb_0)

lemma srgbToLinear_0: "srgbToLinear 0 = 0"
  by (simp add: srgbToLinear_def)

lemma srgbToLinear_1: "srgbToLinear 1 = 1"
  by (simp add: srgbToLinear_def)

lemma srgbToXyz_black: "srgbToXyz 0 0 0 = (0, 0, 0)"
  unfolding srgbToXyz_def Let_def by (simp add: srgbToLinear_0)

lemma labF_0: "labF 0 = 16 / 116"
  by (simp add: labF_def)

lemma xyzToLab_black: "xyzToLab 0 0 0 = (0, 0, 0)"
  unfolding xyzToLab_def Let_def by (simp add: labF_0)

lemma oklchToLab_black: "oklchToLab 0 0 h = (0, 0, 0)"
  by (simp only: oklchToLab_def oklchToSrgb_black srgbToXyz_black xyzToLab_black prod.case)

lemma oklchToSrgb_white: "oklchToSrgb 1 0 h = (1, 1, 1)"
  unfolding oklchToSrgb_def Let_def by (simp add: linearToSrgb_1)

lemma srgbToXyz_white: "srgbToXyz 1 1 1 = (0.95047, 1.0000001, 1.08883)"
  unfolding srgbToXyz_def Let_def by (simp add: srgbToLinear_1)

lemma oklchToLab_white:
  "\<exists>f. oklchToLab 1 0 h = (116 * f - 16, 500 * (1 - f), 200 * (f - 1)) \<and> 1 \<le> f \<and> f \<le> 1.0000001"
proof -
  define f :: real where "f = root 3 1.0000001"
  have b: "1 \<le> f" "f \<le> 1.0000001"
    unfolding f_def by (rule root3_lower; simp) (rule root3_upper; simp)
  have "oklchToLab 1 0 h = (116 * f - 16, 500 * (1 - f), 200 * (f - 1))"
    unfolding f_def
    by (simp add: oklchToLab_def oklchToSrgb_white srgbToXyz_white xyzToLab_def labF_def Let_def)
  then show ?thesis using b by blast
qed

lemma root3_between:
  fixes lo hi t tl th :: real
  assumes "0 \<le> lo" "lo * lo * lo \<le> tl" "tl \<le> t" "t \<le> th" "th \<le> hi * hi * hi" "0 \<le> hi"
  shows "lo \<le> root 3 t \<and> root 3 t \<le> hi"
proof
  show "lo \<le> root 3 t" using assms(1,2,3) by (intro root3_lower) simp_all
  show "root 3 t \<le> hi" using assms(4,5,6) by (intro root3_upper) simp_all
qed

lemma oklchToLab_grey:
  "\<exists>fx fy fz. oklchToLab 0.57 0.001 0 = (116 * fy - 16, 500 * (fx - fy), 200 * (fy - fz))
     \<and> 0.5705 \<le> fx \<and> fx \<le> 0.5706 \<and> 0.5698 \<le> fy \<and> fy \<le> 0.5699
     \<and> 0.5698 \<le> fz \<and> fz \<le> 0.5699"
proof -
  define l' :: real where "l' = 0.57 + 0.3963377774 * 0.001"
  define m' :: real where "m' = 0.57 - 0.1055613458 * 0.001"
  define s' :: real where "s' = 0.57 - 0.0894841775 * 0.001"
  define lr where "lr = 4.0767416621 * (l' * l' * l') - 3.3077115913 * (m' * m' * m')
                          + 0.2309699292 * (s' * s' * s')"
  define lg where "lg = - 1.2684380046 * (l' * l' * l') + 2.6097574011 * (m' * m' * m')
                          - 0.3413193965 * (s' * s' * s')"
  define lb where "lb = - 0.0041960863 * (l' * l' * l') - 0.7034186147 * (m' * m' * m')
                          + 1.707614701 * (s' * s' * s')"
  have srgb: "oklchToSrgb 0.57 0.001 0
      = (max 0 (min 1 (linearToSrgb lr)), max 0 (min 1 (linearToSrgb lg)),
         max 0 (min 1 (linearToSrgb lb)))"
    unfolding oklchToSrgb_def Let_def lr_def lg_def lb_def l'_def m'_def s'_def
    by (simp only: mult_zero_left cos_zero sin_zero mult_zero_right mult_1_right
        add_0_right diff_zero div_0)
  have lrb: "0.1870891 \<le> lr" "lr \<le> 0.1870892"
    unfolding lr_def l'_def m'_def s'_def by simp_all
  have lgb: "0.1844639 \<le> lg" "lg \<le> 0.184464"
    unfolding lg_def l'_def m'_def s'_def by simp_all
  have lbb: "0.1851148 \<le> lb" "lb \<le> 0.1851149"
    unfolding lb_def l'_def m'_def s'_def by simp_all
  have rt: "srgbToLinear (max 0 (min 1 (linearToSrgb lr))) = lr"
           "srgbToLinear (max 0 (min 1 (linearToSrgb lg))) = lg"
           "srgbToLinear (max 0 (min 1 (linearToSrgb lb))) = lb"
    using lrb lgb lbb by (intro srgb_roundtrip; simp)+
  define x where "x = 0.4124564 * lr + 0.3575761 * lg + 0.1804375 * lb"
  define y where "y = 0.2126729 * lr + 0.7151522 * lg + 0.072175 * lb"
  define z where "z = 0.0193339 * lr + 0.119192 * lg + 0.9503041 * lb"
  have xyz: "srgbToXyz (max 0 (min 1 (linearToSrgb lr))) (max 0 (min 1 (linearToSrgb lg)))
               (max 0 (min 1 (linearToSrgb lb))) = (x, y, z)"
    unfolding srgbToXyz_def Let_def rt x_def y_def z_def by (rule refl)
  have xb: "0.17652 \<le> x" "x \<le> 0.17653"
    unfolding x_def using lrb lgb lbb by simp_all
  have yb: "0.18505 \<le> y" "y \<le> 0.18508"
    unfolding y_def using lrb lgb lbb by simp_all
  have zb: "0.20151 \<le> z" "z \<le> 0.20153"
    unfolding z_def using lrb lgb lbb by simp_all
  have tx: "0.1857 \<le> x / 0.95047" "x / 0.95047 \<le> 0.18575" using xb by simp_all
  have ty: "0.18505 \<le> y / 1.0" "y / 1.0 \<le> 0.18508" using yb by simp_all
  have tz: "0.18505 \<le> z / 1.08883" "z / 1.08883 \<le> 0.18509" using zb by simp_all
  define fx where "fx = root 3 (x / 0.95047)"
  define fy where "fy = root 3 (y / 1.0)"
  define fz where "fz = root 3 (z / 1.08883)"
  have big: "x / 0.95047 > 0.008856" "y / 1.0 > 0.008856" "z / 1.08883 > 0.008856"
    by (rule less_le_trans [OF _ tx(1)], simp, rule less_le_trans [OF _ ty(1)], simp,
        rule less_le_trans [OF _ tz(1)], simp)
  have lab: "xyzToLab x y z = (116 * fy - 16, 500 * (fx - fy), 200 * (fy - fz))"
    unfolding xyzToLab_def Let_def labF_def fx_def fy_def fz_def using big by (simp only: if_True)
  have bx: "0.5705 \<le> fx \<and> fx \<le> 0.5706"
    unfolding fx_def by (rule root3_between [OF _ _ tx]) simp_all
  have by': "0.5698 \<le> fy \<and> fy \<le> 0.5699"
    unfolding fy_def by (rule root3_between [OF _ _ ty]) simp_all
  have bz: "0.5698 \<le> fz \<and> fz \<le> 0.5699"
    unfolding fz_def by (rule root3_between [OF _ _ tz]) simp_all
  have "oklchToLab 0.57 0.001 0 = (116 * fy - 16, 500 * (fx - fy), 200 * (fy - fz))"
    by (simp only: oklchToLab_def srgb xyz lab prod.case)
  then show ?thesis using bx by' bz by blast
qed

lemma white_far_from_black: "\<not> colorDistance whiteColor blackColor < 55"
proof -
  obtain f :: real where f: "oklchToLab 1 0 240 = (116 * f - 16, 500 * (1 - f), 200 * (f - 1))"
      "1 \<le> f" "f \<le> 1.0000001"
    using oklchToLab_white [of 240] by blast
  have d: "colorDistance whiteColor blackColor
      = deltaE2000 (116 * f - 16) (500 * (1 - f)) (200 * (f - 1)) 0 0 0"
    by (simp only: colorDistance_def whiteColor_def blackColor_def PeakColor.select_convs f(1)
        oklchToLab_black prod.case)
  have "\<bar>0 - (116 * f - 16)\<bar> * 4 / 7
      \<le> deltaE2000 (116 * f - 16) (500 * (1 - f)) (200 * (f - 1)) 0 0 0"
    using f(2,3) by (intro deltaE2000_lower) simp_all
  moreover have "100 \<le> \<bar>0 - (116 * f - 16)\<bar>"
  proof -
    have "100 \<le> - (0 - (116 * f - 16))" using f(2) by simp
    then show ?thesis by (rule order_trans [OF _ abs_ge_minus_self])
  qed
  ultimately have "55 \<le> deltaE2000 (116 * f - 16) (500 * (1 - f)) (200 * (f - 1)) 0 0 0"
    by simp
  then show ?thesis unfolding d by simp
qed

lemma grey_lab:
  obtains L a b where "oklchToLab 0.57 0.001 0 = (L, a, b)"
    "50 \<le> L" "L \<le> 50.2" "\<bar>a\<bar> \<le> 0.4" "\<bar>b\<bar> \<le> 0.02"
proof -
  obtain fx fy fz :: real where
    lab: "oklchToLab 0.57 0.001 0 = (116 * fy - 16, 500 * (fx - fy), 200 * (fy - fz))"
    and b: "0.5705 \<le> fx" "fx \<le> 0.5706" "0.5698 \<le> fy" "fy \<le> 0.5699"
           "0.5698 \<le> fz" "fz \<le> 0.5699"
    using oklchToLab_grey by blast
  show ?thesis
  proof (rule that [OF lab])
    show "50 \<le> 116 * fy - 16" using b by simp
    show "116 * fy - 16 \<le> 50.2" using b by simp
    have "500 * (fx - fy) \<le> 0.4" "- (500 * (fx - fy)) \<le> 0.4" using b by simp_all
    then show "\<bar>500 * (fx - fy)\<bar> \<le> 0.4" by (rule abs_leI)
    have "200 * (fy - fz) \<le> 0.02" "- (200 * (fy - fz)) \<le> 0.02" using b by simp_all
    then show "\<bar>200 * (fy - fz)\<bar> \<le> 0.02" by (rule abs_leI)
  qed
qed

lemma grey_near_black: "colorDistance greyColor blackColor < 55"
proof -
  obtain L a b :: real where lab: "oklchToLab 0.57 0.001 0 = (L, a, b)"
    and bd: "50 \<le> L" "L \<le> 50.2" "\<bar>a\<bar> \<le> 0.4" "\<bar>b\<bar> \<le> 0.02"
    by (rule grey_lab)
  have d: "colorDistance greyColor blackColor = deltaE2000 L a b 0 0 0"
    by (simp only: colorDistance_def greyColor_def blackColor_def PeakColor.select_convs lab
        oklchToLab_black prod.case)
  define A where "A = \<bar>a\<bar>"
  define B where "B = \<bar>b\<bar>"
  define D where "D = \<bar>0 - L\<bar>"
  have "deltaE2000 L a b 0 0 0 \<le> D + 3 * (A + B + \<bar>0\<bar> + \<bar>0\<bar>)"
    unfolding A_def B_def D_def by (rule deltaE2000_upper)
  moreover have "D \<le> 50.2" unfolding D_def using bd(1,2) by (intro abs_leI) simp_all
  moreover have "A \<le> 0.4" "B \<le> 0.02" unfolding A_def B_def by (rule bd(3), rule bd(4))
  ultimately have "deltaE2000 L a b 0 0 0 < 55" by simp
  then show ?thesis unfolding d .
qed

lemma white_near_grey: "colorDistance whiteColor greyColor < 55"
proof -
  obtain L a b :: real where lab: "oklchToLab 0.57 0.001 0 = (L, a, b)"
    and bd: "50 \<le> L" "L \<le> 50.2" "\<bar>a\<bar> \<le> 0.4" "\<bar>b\<bar> \<le> 0.02"
    by (rule grey_lab)
  obtain f :: real where f: "oklchToLab 1 0 240 = (116 * f - 16, 500 * (1 - f), 200 * (f - 1))"
      "1 \<le> f" "f \<le> 1.0000001"
    using oklchToLab_white [of 240] by blast
  have d: "colorDistance whiteColor greyColor
      = deltaE2000 (116 * f - 16) (500 * (1 - f)) (200 * (f - 1)) L a b"
    by (simp only: colorDistance_def greyColor_def whiteColor_def PeakColor.select_convs lab f(1)
        prod.case)
  define A where "A = \<bar>a\<bar>"
  define B where "B = \<bar>b\<bar>"
  define A' where "A' = \<bar>500 * (1 - f)\<bar>"
  define B' where "B' = \<bar>200 * (f - 1)\<bar>"
  define D where "D = \<bar>L - (116 * f - 16)\<bar>"
  have "deltaE2000 (116 * f - 16) (500 * (1 - f)) (200 * (f - 1)) L a b
      \<le> D + 3 * (A' + B' + A + B)"
    unfolding A_def B_def A'_def B'_def D_def by (rule deltaE2000_upper)
  moreover have "A \<le> 0.4" "B \<le> 0.02" unfolding A_def B_def by (rule bd(3), rule bd(4))
  moreover have "A' \<le> 0.001" unfolding A'_def using f(2,3) by (intro abs_leI) simp_all
  moreover have "B' \<le> 0.001" unfolding B'_def using f(2,3) by (intro abs_leI) simp_all
  moreover have "D \<le> 50.1" unfolding D_def using f(2,3) bd(1,2) by (intro abs_leI) simp_all
  ultimately have "deltaE2000 (116 * f - 16) (500 * (1 - f)) (200 * (f - 1)) L a b < 55"
    by simp
  then show ?thesis unfolding d .
qed

lemma filterByDistance_fold:
  "filterByDistance cs d = (if d \<le> 0 \<or> length cs \<le> 1 then cs else fold (mergeColor d) cs [])"
  by (simp add: filterByDistance_def)

lemma mergeColor_far:
  "(\<forall>r \<in> set rs. \<not> colorDistance c r < d) \<Longrightarrow> mergeColor d c rs = rs @ [c]"
  by (induction rs) simp_all

lemma length_mergeColor_le: "length (mergeColor d c rs) \<le> length rs + 1"
  by (induction rs) simp_all

lemma length_mergeColor_close:
  "(\<exists>r \<in> set rs. colorDistance c r < d) \<Longrightarrow> length (mergeColor d c rs) = length rs"
  by (induction rs) auto

lemma length_fold_mergeColor_le: "length (fold (mergeColor d) cs p) \<le> length p + length cs"
proof (induction cs arbitrary: p)
  case Nil
  then show ?case by simp
next
  case (Cons c cs)
  have "length (fold (mergeColor d) cs (mergeColor d c p)) \<le> length (mergeColor d c p) + length cs"
    by (rule Cons.IH)
  also have "\<dots> \<le> length p + 1 + length cs"
    using length_mergeColor_le [of d c p] by simp
  finally show ?case by simp
qed

lemma fold_mergeColor_separated:
  "sorted_wrt (\<lambda>r c. \<not> colorDistance c r < d) (p @ cs) \<Longrightarrow> fold (mergeColor d) cs p = p @ cs"
proof (induction cs arbitrary: p)
  case Nil
  then show ?case by simp
next
  case (Cons c cs)
  have far: "\<forall>r \<in> set p. \<not> colorDistance c r < d"
    using Cons.prems by (simp add: sorted_wrt_append)
  have "sorted_wrt (\<lambda>r c. \<not> colorDistance c r < d) ((p @ [c]) @ cs)"
    using Cons.prems by simp
  then have "fold (mergeColor d) cs (p @ [c]) = (p @ [c]) @ cs" by (rule Cons.IH)
  then show ?case by (simp add: mergeColor_far [OF far])
qed

lemma fold_mergeColor_fixed:
  "fold (mergeColor d) cs p = p @ cs \<Longrightarrow>
   (\<forall>r \<in> set p. \<forall>c \<in> set cs. \<not> colorDistance c r < d)
     \<and> sorted_wrt (\<lambda>r c. \<not> colorDistance c r < d) cs"
proof (induction cs arbitrary: p)
  case Nil
  then show ?case by simp
next
  case (Cons c cs)
  have eq: "fold (mergeColor d) cs (mergeColor d c p) = p @ c # cs" using Cons.prems by simp
  have "length p + 1 + length cs = length (fold (mergeColor d) cs (mergeColor d c p))"
    by (simp add: eq)
  also have "\<dots> \<le> length (mergeColor d c p) + length cs"
    by (rule length_fold_mergeColor_le)
  finally have len: "length p + 1 \<le> length (mergeColor d c p)" by simp
  have far: "\<forall>r \<in> set p. \<not> colorDistance c r < d"
  proof (rule ccontr)
    assume "\<not> (\<forall>r \<in> set p. \<not> colorDistance c r < d)"
    then have "\<exists>r \<in> set p. colorDistance c r < d" by blast
    then have "length (mergeColor d c p) = length p" by (rule length_mergeColor_close)
    then show False using len by simp
  qed
  have "fold (mergeColor d) cs (p @ [c]) = (p @ [c]) @ cs"
    using eq by (simp add: mergeColor_far [OF far])
  then have ih: "(\<forall>r \<in> set (p @ [c]). \<forall>c' \<in> set cs. \<not> colorDistance c' r < d)
     \<and> sorted_wrt (\<lambda>r c. \<not> colorDistance c r < d) cs"
    by (rule Cons.IH)
  show ?case using far ih by auto
qed

lemma filterByDistance_fixed_iff:
  "filterByDistance cs d = cs \<longleftrightarrow> d \<le> 0 \<or> length cs \<le> 1 \<or> separated d cs"
proof (cases "d \<le> 0 \<or> length cs \<le> 1")
  case True
  then have "filterByDistance cs d = cs" by (simp add: filterByDistance_fold)
  then show ?thesis using True by blast
next
  case False
  have "fold (mergeColor d) cs [] = cs \<longleftrightarrow> separated d cs"
  proof
    assume "fold (mergeColor d) cs [] = cs"
    then have "fold (mergeColor d) cs [] = [] @ cs" by simp
    then show "separated d cs" unfolding separated_def using fold_mergeColor_fixed by blast
  next
    assume "separated d cs"
    then have "sorted_wrt (\<lambda>r c. \<not> colorDistance c r < d) ([] @ cs)" by (simp add: separated_def)
    then have "fold (mergeColor d) cs [] = [] @ cs" by (rule fold_mergeColor_separated)
    then show "fold (mergeColor d) cs [] = cs" by simp
  qed
  then show ?thesis using False by (simp add: filterByDistance_fold)
qed

text \<open>Without a colour of higher chroma than an earlier one, no entry is ever replaced.\<close>

lemma mergeColor_no_replace:
  assumes "\<forall>r \<in> set rs. chroma c \<le> chroma r"
  shows "mergeColor d c rs = (if \<exists>r \<in> set rs. colorDistance c r < d then rs else rs @ [c])"
  using assms by (induction rs) auto

lemma fold_mergeColor_no_replace:
  assumes "sorted_wrt (\<lambda>r c. \<not> colorDistance c r < d) p"
    and "sorted_wrt (\<lambda>x y. chroma y \<le> chroma x) cs"
    and "\<forall>r \<in> set p. \<forall>c \<in> set cs. chroma c \<le> chroma r"
  shows "sorted_wrt (\<lambda>r c. \<not> colorDistance c r < d) (fold (mergeColor d) cs p)"
  using assms
proof (induction cs arbitrary: p)
  case Nil
  then show ?case by simp
next
  case (Cons c cs)
  have low: "\<forall>r \<in> set p. chroma c \<le> chroma r" using Cons.prems(3) by simp
  let ?q = "mergeColor d c p"
  have q: "?q = (if \<exists>r \<in> set p. colorDistance c r < d then p else p @ [c])"
    by (rule mergeColor_no_replace [OF low])
  have sep: "sorted_wrt (\<lambda>r c. \<not> colorDistance c r < d) ?q"
    using Cons.prems(1) by (auto simp add: q sorted_wrt_append)
  have srt: "sorted_wrt (\<lambda>x y. chroma y \<le> chroma x) cs" using Cons.prems(2) by simp
  have bnd: "\<forall>r \<in> set ?q. \<forall>c' \<in> set cs. chroma c' \<le> chroma r"
    using Cons.prems(2,3) by (auto simp add: q)
  have "sorted_wrt (\<lambda>r c. \<not> colorDistance c r < d) (fold (mergeColor d) cs ?q)"
    by (rule Cons.IH [OF sep srt bnd])
  then show ?case by simp
qed

lemma filterByDistance_separated:
  assumes "sorted_wrt (\<lambda>x y. chroma y \<le> chroma x) cs" and "\<not> (d \<le> 0 \<or> length cs \<le> 1)"
  shows "separated d (filterByDistance cs d)"
proof -
  have "sorted_wrt (\<lambda>r c. \<not> colorDistance c r < d) (fold (mergeColor d) cs [])"
    by (rule fold_mergeColor_no_replace [OF _ assms(1)]) simp_all
  then show ?thesis using assms(2) by (simp add: separated_def filterByDistance_fold)
qed

text \<open>
  When a second pass changes nothing. Filtering the output of \<open>filterByDistance\<close>
  again with the same distance returns it unchanged exactly when the distance is not
  positive, or the output has at most one colour, or the output is separated (every
  colour at least the distance away from every colour before it). The output is
  separated whenever no colour of the input has a higher chroma than a colour before
  it, since then no accepted colour is replaced.
\<close>

theorem filterByDistance_idempotent_iff:
  "(filterByDistance (filterByDistance cs d) d = filterByDistance cs d \<longleftrightarrow>
      d \<le> 0 \<or> length (filterByDistance cs d) \<le> 1 \<or> separated d (filterByDistance cs d))
   \<and> (sorted_wrt (\<lambda>x y. chroma y \<le> chroma x) cs \<longrightarrow>
      filterByDistance (filterByDistance cs d) d = filterByDistance cs d)"
proof
  show "filterByDistance (filterByDistance cs d) d = filterByDistance cs d \<longleftrightarrow>
      d \<le> 0 \<or> length (filterByDistance cs d) \<le> 1 \<or> separated d (filterByDistance cs d)"
    by (rule filterByDistance_fixed_iff)
  show "sorted_wrt (\<lambda>x y. chroma y \<le> chroma x) cs \<longrightarrow>
      filterByDistance (filterByDistance cs d) d = filterByDistance cs d"
  proof
    assume srt: "sorted_wrt (\<lambda>x y. chroma y \<le> chroma x) cs"
    show "filterByDistance (filterByDistance cs d) d = filterByDistance cs d"
    proof (cases "d \<le> 0 \<or> length cs \<le> 1")
      case True
      then show ?thesis by (auto simp add: filterByDistance_fold)
    next
      case False
      have "separated d (filterByDistance cs d)" by (rule filterByDistance_separated [OF srt False])
      then show ?thesis by (simp add: filterByDistance_fixed_iff)
    qed
  qed
qed

lemma filter_three: "filterByDistance [blackColor, whiteColor, greyColor] 55 = [greyColor, whiteColor]"
  using white_far_from_black grey_near_black
  by (simp add: filterByDistance_fold) (simp add: greyColor_def blackColor_def)

lemma filter_two: "filterByDistance [greyColor, whiteColor] 55 = [greyColor]"
  using white_near_grey
  by (simp add: filterByDistance_fold) (simp add: greyColor_def whiteColor_def)

text \<open>
  C3 at the list black, white, grey with distance 55. Black is accepted, white is
  accepted (it is at least 55 from black), and the grey, closer than 55 to black and of
  higher chroma, replaces black without being compared with white: the output is grey,
  white, two colours closer than 55, where the description of \<open>minDistance\<close> says
  that colours closer than it are merged. A second pass merges them, so the filter is
  not idempotent here.
\<close>

theorem filterByDistance_not_idempotent:
  "filterByDistance [blackColor, whiteColor, greyColor] 55 = [greyColor, whiteColor] \<and>
   colorDistance whiteColor greyColor < 55 \<and>
   filterByDistance (filterByDistance [blackColor, whiteColor, greyColor] 55) 55 = [greyColor] \<and>
   filterByDistance (filterByDistance [blackColor, whiteColor, greyColor] 55) 55
     \<noteq> filterByDistance [blackColor, whiteColor, greyColor] 55"
  by (simp add: filter_three filter_two white_near_grey)

theorem filterByDistance_idempotent_iff_witness:
  "separated 55 (filterByDistance [blackColor, whiteColor] 55) \<and>
   sorted_wrt (\<lambda>x y. chroma y \<le> chroma x) [blackColor, whiteColor] \<and>
   filterByDistance (filterByDistance [blackColor, whiteColor] 55) 55
     = filterByDistance [blackColor, whiteColor] 55"
proof -
  have f: "filterByDistance [blackColor, whiteColor] 55 = [blackColor, whiteColor]"
    using white_far_from_black by (simp add: filterByDistance_fold)
  have s: "separated 55 (filterByDistance [blackColor, whiteColor] 55)"
    unfolding f using white_far_from_black by (simp add: separated_def)
  have c: "sorted_wrt (\<lambda>x y. chroma y \<le> chroma x) [blackColor, whiteColor]"
    by (simp add: blackColor_def whiteColor_def)
  show ?thesis
    using filterByDistance_idempotent_iff [of "[blackColor, whiteColor]" 55] s c by blast
qed

end
